theory Spec2Isabelle
  imports Main "HOL-Library.AList" "HOL-Library.Sublist"
begin

section \<open>The relay of \<^verbatim>\<open>apps/backend/dist/raw-server.js\<close>\<close>

text \<open>
  The relay keeps one \<^verbatim>\<open>WSSharedDoc\<close> per room name in the global map \<^verbatim>\<open>docs\<close>.
  A \<^verbatim>\<open>WSSharedDoc\<close> carries the replicated document, the map \<^verbatim>\<open>conns\<close> from
  connection to the set of presence ids it controls, and an \<^verbatim>\<open>Awareness\<close> instance.
  JavaScript objects have identity: the handlers of a connection close over the
  \<^verbatim>\<open>doc\<close> object they were installed with, which may outlive its entry in \<^verbatim>\<open>docs\<close>.
  So documents live in a heap addressed by \<open>docid\<close>, and connections are addressed by
  \<open>conn\<close>.
\<close>

type_synonym conn = nat
type_synonym docid = nat
type_synonym clientID = nat
type_synonym blob = "nat list"

text \<open>
  The state of a participant is a JSON value, produced by \<^verbatim>\<open>JSON.parse\<close>. The relay
  never looks into it, but y-protocols tests it for truthiness when it encodes an
  update, so the values JavaScript takes for false are told apart: \<^verbatim>\<open>false\<close>, the
  number zero and the empty string. Arrays and objects, carried as their text, are
  always true. \<^verbatim>\<open>null\<close> is not a \<open>json\<close>: a state that may be null is a
  \<open>json option\<close>.
\<close>

datatype json = JBool bool | JNum int | JStr string | JObj string

fun falsy :: "json \<Rightarrow> bool" where
  "falsy (JBool b) = (\<not> b)"
| "falsy (JNum n) = (n = 0)"
| "falsy (JStr s) = (s = [])"
| "falsy (JObj s) = False"

subsection \<open>Wire messages\<close>

text \<open>
  A frame is \<^verbatim>\<open>[varint messageType][payload]\<close>. The payloads are produced and
  consumed by lib0 and y-protocols; the relay only reads the type tag and hands the rest
  to the library. Messages are therefore modelled after decoding: the sync sub-protocol
  with its three sub-tags, an awareness update as the list of its entries
  (client id, clock, state or null) in wire order, and the stats reply.
\<close>

type_synonym aw_entry = "clientID \<times> nat \<times> json option"

datatype sync_msg = SyncStep1 blob | SyncStep2 blob | SyncUpdate blob

datatype msg = MsgSync sync_msg | MsgAwareness "aw_entry list" | MsgStats nat

text \<open>
  The bytes of an awareness update, given by what \<^verbatim>\<open>applyAwarenessUpdate\<close> reads from
  them. It decodes and applies one entry after the other. \<open>AwUpdate es\<close>: the bytes
  decode to the entries \<open>es\<close>. \<open>AwCorrupt es\<close>: the entries \<open>es\<close> decode and
  the bytes after them do not (a truncated entry, a state that is not JSON, or with
  \<open>es = []\<close> an unreadable count); the library has applied \<open>es\<close> when it raises.
\<close>

datatype aw_update = AwUpdate "aw_entry list" | AwCorrupt "aw_entry list"

text \<open>
  An inbound frame. \<open>Malformed\<close>: \<^verbatim>\<open>readVarUint\<close> cannot read the type tag.
  Otherwise the tag and the rest of the bytes, given by what the library reads from
  them: \<open>asSync\<close> is what \<^verbatim>\<open>readSyncMessage\<close> decodes (\<open>None\<close>: it raises, on an
  undecodable payload or an unknown sub-tag), \<open>asAwareness\<close> is the byte array
  \<^verbatim>\<open>readVarUint8Array\<close> reads at line 218 (\<open>None\<close>: it raises).
\<close>

record payload =
  asSync :: "sync_msg option"
  asAwareness :: "aw_update option"

datatype frame = Malformed | Frame nat payload

definition messageSync :: nat where "messageSync = 0"
definition messageAwareness :: nat where "messageAwareness = 1"
definition messageStats :: nat where "messageStats = 10"

datatype error = MalformedFrame | CorruptUpdate

subsection \<open>Transports\<close>

text \<open>
  What the relay uses of a \<^verbatim>\<open>WebSocket\<close>: \<^verbatim>\<open>readyState\<close>, \<^verbatim>\<open>send\<close> (which may
  raise), \<^verbatim>\<open>close\<close>, and the handlers installed by \<^verbatim>\<open>setupConnection\<close>, which
  close over one \<^verbatim>\<open>doc\<close>. \<open>sent\<close> lists the payloads handed to the transport,
  \<open>closeCalls\<close> counts the calls of \<^verbatim>\<open>close()\<close>, \<open>sendThrows\<close> says whether the
  next write raises, and \<open>room\<close> is the document the handlers close over
  (\<open>None\<close> before \<^verbatim>\<open>setupConnection\<close>).
\<close>

datatype ready_state = CONNECTING | OPEN | CLOSING | CLOSED

record transport =
  readyState :: ready_state
  sent :: "msg list"
  closeCalls :: nat
  sendThrows :: bool
  room :: "docid option"

text \<open>\<^verbatim>\<open>conn.close()\<close>: an open socket starts its closing handshake.\<close>

definition close_transport :: "transport \<Rightarrow> transport" where
  "close_transport t =
     t\<lparr>readyState := (if readyState t = OPEN then CLOSING else readyState t),
       closeCalls := Suc (closeCalls t)\<rparr>"

subsection \<open>Awareness (y-protocols)\<close>

text \<open>
  The presence table of a room: \<open>states\<close> is the JavaScript \<^verbatim>\<open>Map\<close> of client id to
  state, in insertion order; \<open>meta\<close> is the \<^verbatim>\<open>Map\<close> that holds the clock of every
  client id ever seen.
  The wall-clock field \<^verbatim>\<open>lastUpdated\<close> and the interval timer that uses it are left out.
\<close>

record awareness_t =
  clientID :: clientID
  states :: "(clientID \<times> json) list"
  meta :: "(clientID \<times> nat) list"

record changes =
  added :: "clientID list"
  updated :: "clientID list"
  removed :: "clientID list"

definition no_changes :: changes where
  "no_changes = \<lparr>added = [], updated = [], removed = []\<rparr>"

definition has_state :: "awareness_t \<Rightarrow> clientID \<Rightarrow> bool" where
  "has_state aw i = (map_of (states aw) i \<noteq> None)"

text \<open>
  The clock of a client id, 0 for an id never seen. The library enters the clock of an
  id whenever it enters a state for it, so where it reads the clock of an id with a
  state, or of an id it has just removed, the entry is there.
\<close>

definition clock_of :: "awareness_t \<Rightarrow> clientID \<Rightarrow> nat" where
  "clock_of aw i = (case map_of (meta aw) i of None \<Rightarrow> 0 | Some k \<Rightarrow> k)"

text \<open>\<^verbatim>\<open>getLocalState()\<close> is \<^verbatim>\<open>states.get(clientID) || null\<close>.\<close>

definition getLocalState :: "awareness_t \<Rightarrow> json option" where
  "getLocalState aw =
     (case map_of (states aw) (clientID aw) of
        None \<Rightarrow> None
      | Some state \<Rightarrow> if falsy state then None else Some state)"

text \<open>\<^verbatim>\<open>setLocalState(null)\<close>: drop the own state and advance the own clock.\<close>

definition setLocalStateNull :: "awareness_t \<Rightarrow> awareness_t" where
  "setLocalStateNull aw =
     aw\<lparr>states := AList.delete (clientID aw) (states aw),
        meta := AList.update (clientID aw)
                  (case map_of (meta aw) (clientID aw) of None \<Rightarrow> 0 | Some k \<Rightarrow> Suc k)
                  (meta aw)\<rparr>"

text \<open>
  \<^verbatim>\<open>new Awareness(doc)\<close> sets the local state to \<^verbatim>\<open>{}\<close> at clock 0; the constructor of
  \<^verbatim>\<open>WSSharedDoc\<close> then calls \<^verbatim>\<open>setLocalState(null)\<close>.
\<close>

definition newAwareness :: "clientID \<Rightarrow> awareness_t" where
  "newAwareness cid =
     setLocalStateNull \<lparr>clientID = cid, states = [(cid, JObj ''{}'')], meta = [(cid, 0)]\<rparr>"

text \<open>
  One entry of \<^verbatim>\<open>applyAwarenessUpdate\<close>: last writer wins by clock; a null state at
  the current clock still removes an existing state; the relay's own id is never
  removed by a remote while \<^verbatim>\<open>getLocalState()\<close> is not null.
\<close>

fun applyEntry :: "aw_entry \<Rightarrow> awareness_t \<times> changes \<Rightarrow> awareness_t \<times> changes" where
  "applyEntry (i, clock, state) (aw, ch) =
     (let clientMeta = map_of (meta aw) i;
          currClock = clock_of aw i
      in if currClock < clock \<or> (currClock = clock \<and> state = None \<and> has_state aw i)
         then
           let keep = (state = None \<and> i = clientID aw \<and> getLocalState aw \<noteq> None);
               sts = (case state of
                        None \<Rightarrow> if keep then states aw else AList.delete i (states aw)
                      | Some s \<Rightarrow> AList.update i s (states aw));
               aw' = aw\<lparr>states := sts,
                        meta := AList.update i (if keep then Suc clock else clock) (meta aw)\<rparr>
           in if clientMeta = None \<and> state \<noteq> None then (aw', ch\<lparr>added := added ch @ [i]\<rparr>)
              else if clientMeta \<noteq> None \<and> state = None
                   then (aw', ch\<lparr>removed := removed ch @ [i]\<rparr>)
              else if state \<noteq> None then (aw', ch\<lparr>updated := updated ch @ [i]\<rparr>)
              else (aw', ch)
         else (aw, ch))"

definition applyAwarenessUpdate :: "awareness_t \<Rightarrow> aw_entry list \<Rightarrow> awareness_t \<times> changes" where
  "applyAwarenessUpdate aw es = fold applyEntry es (aw, no_changes)"

text \<open>The \<^verbatim>\<open>update\<close> event fires when any of the three lists is non-empty.\<close>

definition emits :: "changes \<Rightarrow> bool" where
  "emits ch = (added ch \<noteq> [] \<or> updated ch \<noteq> [] \<or> removed ch \<noteq> [])"

text \<open>
  \<^verbatim>\<open>removeAwarenessStates\<close>: the ids that had a state lose it and are reported, in
  the order given.
\<close>

fun removeAwarenessStates :: "awareness_t \<Rightarrow> clientID list \<Rightarrow> awareness_t \<times> clientID list" where
  "removeAwarenessStates aw [] = (aw, [])"
| "removeAwarenessStates aw (i # is) =
     (if has_state aw i
      then let aw1 = aw\<lparr>states := AList.delete i (states aw),
                         meta := (if i = clientID aw
                                  then AList.update i (Suc (clock_of aw i)) (meta aw)
                                  else meta aw)\<rparr>;
               (aw2, rs) = removeAwarenessStates aw1 is
           in (aw2, i # rs)
      else removeAwarenessStates aw is)"

text \<open>
  \<^verbatim>\<open>encodeAwarenessUpdate\<close> writes, for every client id asked for, the id, its clock
  and \<^verbatim>\<open>states.get(clientID) || null\<close>: a state that JavaScript takes for false goes
  out as null, like a missing one.
\<close>

definition encodeAwarenessUpdate :: "awareness_t \<Rightarrow> clientID list \<Rightarrow> aw_entry list" where
  "encodeAwarenessUpdate aw clients =
     map (\<lambda>i. (i, clock_of aw i,
               (case map_of (states aw) i of
                  None \<Rightarrow> None
                | Some state \<Rightarrow> if falsy state then None else Some state))) clients"

subsection \<open>Rooms and the relay state\<close>

text \<open>
  The replicated document is a black box: the relay is parametric in the CRDT engine.
  \<^verbatim>\<open>Y.applyUpdate\<close> integrates the update inside a transaction whose cleanup runs in
  a \<^verbatim>\<open>finally\<close> block. So when the library raises in the middle of an update, what
  it has integrated stays in the document and the \<^verbatim>\<open>update\<close> event for it fires
  before the exception reaches the caller. \<open>applyUpdate\<close> gives the document after the
  call, the update the \<^verbatim>\<open>update\<close> event carries when the transaction changed
  something, and whether the call raises. \<open>encodeStateAsUpdate\<close> returns \<open>None\<close> when
  the state vector does not decode; it only reads the document.
\<close>

record 'y engine =
  newDoc :: 'y
  encodeStateVector :: "'y \<Rightarrow> blob"
  encodeStateAsUpdate :: "'y \<Rightarrow> blob \<Rightarrow> blob option"
  applyUpdate :: "'y \<Rightarrow> blob \<Rightarrow> 'y \<times> blob option \<times> bool"

text \<open>
  \<open>conns\<close> is the \<^verbatim>\<open>Map\<close> from connection to its \<^verbatim>\<open>Set\<close> of controlled ids, both in
  insertion order. \<open>destroyed\<close> is set by \<^verbatim>\<open>doc.destroy()\<close>, which detaches every
  observer of the document and of its awareness.
\<close>

record 'y doc =
  name :: string
  conns :: "(conn \<times> clientID list) list"
  awareness :: awareness_t
  ydoc :: 'y
  destroyed :: bool

record 'y relay =
  docs :: "string \<rightharpoonup> docid"
  heap :: "docid \<rightharpoonup> 'y doc"
  nextDoc :: docid
  transports :: "conn \<Rightarrow> transport"
  errlog :: "error list"

datatype origin = OConn conn | ONull | OLocal

definition set_add :: "'a \<Rightarrow> 'a list \<Rightarrow> 'a list" where
  "set_add x xs = (if x \<in> set xs then xs else xs @ [x])"

definition set_delete :: "'a \<Rightarrow> 'a list \<Rightarrow> 'a list" where
  "set_delete x xs = removeAll x xs"

definition conns_of :: "'y relay \<Rightarrow> docid \<Rightarrow> (conn \<times> clientID list) list" where
  "conns_of st d = (case heap st d of None \<Rightarrow> [] | Some doc \<Rightarrow> conns doc)"

definition registered :: "'y relay \<Rightarrow> docid \<Rightarrow> conn \<Rightarrow> bool" where
  "registered st d c = (map_of (conns_of st d) c \<noteq> None)"

definition upd_doc :: "docid \<Rightarrow> ('y doc \<Rightarrow> 'y doc) \<Rightarrow> 'y relay \<Rightarrow> 'y relay" where
  "upd_doc d f st =
     (case heap st d of None \<Rightarrow> st | Some doc \<Rightarrow> st\<lparr>heap := (heap st)(d \<mapsto> f doc)\<rparr>)"

definition upd_transport :: "conn \<Rightarrow> (transport \<Rightarrow> transport) \<Rightarrow> 'y relay \<Rightarrow> 'y relay" where
  "upd_transport c f st = st\<lparr>transports := (transports st)(c := f (transports st c))\<rparr>"

text \<open>
  \<^verbatim>\<open>doc.destroy()\<close> runs \<^verbatim>\<open>awareness.destroy()\<close>, which sets the local state to null,
  and then drops all observers. A second call finds no observer and changes nothing.
\<close>

definition destroy :: "'y doc \<Rightarrow> 'y doc" where
  "destroy doc =
     (if destroyed doc then doc
      else doc\<lparr>awareness := setLocalStateNull (awareness doc), destroyed := True\<rparr>)"

text \<open>
  The part of the \<^verbatim>\<open>update\<close> handler of the awareness that maintains the controlled
  ids of the origin connection (lines 79 to 86).
\<close>

definition track_controlled :: "changes \<Rightarrow> origin \<Rightarrow> 'y doc \<Rightarrow> 'y doc" where
  "track_controlled ch orig doc =
     (case orig of
        OConn c \<Rightarrow>
          (case map_of (conns doc) c of
             None \<Rightarrow> doc
           | Some connControlledIds \<Rightarrow>
               doc\<lparr>conns := AList.update c
                     (fold set_delete (removed ch) (fold set_add (added ch) connControlledIds))
                     (conns doc)\<rparr>)
      | _ \<Rightarrow> doc)"

text \<open>
  The first half of the guarded branch of \<^verbatim>\<open>closeConn\<close> (lines 168 to 172, up to the
  event): the connection leaves \<open>conns\<close> and its controlled ids leave the table.
  The result also gives the ids that \<^verbatim>\<open>removeAwarenessStates\<close> reports.
\<close>

definition deregister :: "docid \<Rightarrow> conn \<Rightarrow> 'y relay \<Rightarrow> 'y relay \<times> clientID list" where
  "deregister d c st =
     (case heap st d of
        None \<Rightarrow> (st, [])
      | Some doc \<Rightarrow>
          (case map_of (conns doc) c of
             None \<Rightarrow> (st, [])
           | Some controlledIds \<Rightarrow>
               let (aw, rs) = removeAwarenessStates (awareness doc) controlledIds
               in (st\<lparr>heap := (heap st)(d \<mapsto> doc\<lparr>conns := AList.delete c (conns doc),
                                                  awareness := aw\<rparr>)\<rparr>, rs)))"

text \<open>Lines 174 to 177: destroy the room and drop its name when no connection is left.\<close>

definition destroyIfEmpty :: "docid \<Rightarrow> 'y relay \<Rightarrow> 'y relay" where
  "destroyIfEmpty d st =
     (case heap st d of
        None \<Rightarrow> st
      | Some doc \<Rightarrow>
          if conns doc = []
          then st\<lparr>heap := (heap st)(d \<mapsto> destroy doc), docs := (docs st)(name doc := None)\<rparr>
          else st)"

text \<open>
  A transport takes a payload when it is open and the write does not raise; the payload
  is then in \<open>sent\<close>.
\<close>

definition healthy :: "'y relay \<Rightarrow> conn \<Rightarrow> bool" where
  "healthy st c = (readyState (transports st c) = OPEN \<and> \<not> sendThrows (transports st c))"

definition transmit :: "conn \<Rightarrow> msg \<Rightarrow> 'y relay \<Rightarrow> 'y relay" where
  "transmit c m st = upd_transport c (\<lambda>t. t\<lparr>sent := sent t @ [m]\<rparr>) st"

definition handlers_attached :: "'y relay \<Rightarrow> docid \<Rightarrow> bool" where
  "handlers_attached st d = (case heap st d of None \<Rightarrow> False | Some doc \<Rightarrow> \<not> destroyed doc)"

subsection \<open>\<^verbatim>\<open>send\<close>, \<^verbatim>\<open>closeConn\<close> and the awareness handler\<close>

text \<open>
  The three functions call each other: a send to a dead transport closes the
  connection, closing a connection removes its presence ids, the removal fires the
  awareness handler, and the handler sends to every connection that is left.
  \<open>forEachSend\<close> is \<^verbatim>\<open>conns.forEach((_, c) => { if (c !== excl) send(doc, c, m) })\<close>:
  it walks the keys in insertion order and skips a key deleted before its turn, as
  the iteration of a JavaScript \<^verbatim>\<open>Map\<close> does. The handler of the awareness excludes
  nobody.
\<close>

function
  send :: "docid \<Rightarrow> conn \<Rightarrow> msg \<Rightarrow> 'y relay \<Rightarrow> 'y relay" and
  closeConn :: "docid \<Rightarrow> conn \<Rightarrow> 'y relay \<Rightarrow> 'y relay" and
  awarenessChangeHandler :: "docid \<Rightarrow> changes \<Rightarrow> origin \<Rightarrow> 'y relay \<Rightarrow> 'y relay" and
  forEachSend :: "docid \<Rightarrow> conn list \<Rightarrow> conn option \<Rightarrow> msg \<Rightarrow> 'y relay \<Rightarrow> 'y relay"
where
  "send d c m st =
     (if readyState (transports st c) \<noteq> OPEN then closeConn d c st
      else if sendThrows (transports st c) then closeConn d c st
      else transmit c m st)"
| "closeConn d c st =
     upd_transport c close_transport
       (if registered st d c
        then let st1 = fst (deregister d c st);
                 rs = snd (deregister d c st);
                 st2 = (if rs \<noteq> [] \<and> handlers_attached st d
                        then awarenessChangeHandler d
                               \<lparr>added = [], updated = [], removed = rs\<rparr> ONull st1
                        else st1)
             in destroyIfEmpty d st2
        else st)"
| "awarenessChangeHandler d ch orig st =
     (let changedClients = added ch @ updated ch @ removed ch;
          st1 = upd_doc d (track_controlled ch orig) st;
          buff = MsgAwareness
                   (case heap st1 d of
                      None \<Rightarrow> []
                    | Some doc \<Rightarrow> encodeAwarenessUpdate (awareness doc) changedClients)
      in forEachSend d (map fst (conns_of st1 d)) None buff st1)"
| "forEachSend d [] excl m st = st"
| "forEachSend d (c # cs) excl m st =
     (if registered st d c \<and> excl \<noteq> Some c
      then forEachSend d cs excl m (send d c m st)
      else forEachSend d cs excl m st)"
  by pat_completeness auto

subsection \<open>The document handler, \<^verbatim>\<open>getYDoc\<close> and \<^verbatim>\<open>setupConnection\<close>\<close>

text \<open>
  The \<^verbatim>\<open>update\<close> handler of the document (lines 107 to 118): the update goes to
  every connection but the origin.
\<close>

definition docUpdateHandler :: "docid \<Rightarrow> blob \<Rightarrow> origin \<Rightarrow> 'y relay \<Rightarrow> 'y relay" where
  "docUpdateHandler d update orig st =
     forEachSend d (map fst (conns_of st d))
       (case orig of OConn c \<Rightarrow> Some c | _ \<Rightarrow> None)
       (MsgSync (SyncUpdate update)) st"

text \<open>
  \<^verbatim>\<open>new WSSharedDoc(name)\<close>. The client id is the one \<^verbatim>\<open>Y.Doc\<close> draws at random.
\<close>

definition newWSSharedDoc :: "'y engine \<Rightarrow> string \<Rightarrow> clientID \<Rightarrow> 'y doc" where
  "newWSSharedDoc E docname cid =
     \<lparr>name = docname, conns = [], awareness = newAwareness cid, ydoc = newDoc E,
      destroyed = False\<rparr>"

definition getYDoc :: "'y engine \<Rightarrow> string \<Rightarrow> clientID \<Rightarrow> 'y relay \<Rightarrow> docid \<times> 'y relay" where
  "getYDoc E docname cid st =
     (case docs st docname of
        Some d \<Rightarrow> (d, st)
      | None \<Rightarrow>
          (nextDoc st,
           st\<lparr>docs := (docs st)(docname \<mapsto> nextDoc st),
              heap := (heap st)(nextDoc st \<mapsto> newWSSharedDoc E docname cid),
              nextDoc := Suc (nextDoc st)\<rparr>))"

definition setupConnection :: "'y engine \<Rightarrow> conn \<Rightarrow> string \<Rightarrow> clientID \<Rightarrow> 'y relay \<Rightarrow> 'y relay" where
  "setupConnection E ws docName cid st =
     (let d = fst (getYDoc E docName cid st);
          st1 = snd (getYDoc E docName cid st);
          st2 = upd_doc d (\<lambda>doc. doc\<lparr>conns := AList.update ws [] (conns doc)\<rparr>) st1;
          st3 = upd_transport ws (\<lambda>t. t\<lparr>room := Some d\<rparr>) st2
      in case heap st3 d of
           None \<Rightarrow> st3
         | Some doc \<Rightarrow>
             let st4 = send d ws (MsgSync (SyncStep1 (encodeStateVector E (ydoc doc)))) st3
             in case heap st4 d of
                  None \<Rightarrow> st4
                | Some doc4 \<Rightarrow>
                    let awarenessStates = states (awareness doc4)
                    in if awarenessStates \<noteq> []
                       then send d ws
                              (MsgAwareness (encodeAwarenessUpdate (awareness doc4)
                                               (map fst awarenessStates))) st4
                       else st4)"

subsection \<open>The handlers of a connection\<close>

text \<open>
  The body of the \<^verbatim>\<open>try\<close> block of the \<^verbatim>\<open>message\<close> handler, for the document
  \<open>d\<close> the handler closes over. The result is the state reached and the exception,
  if one was raised. Every raise comes from decoding or from the library call that
  applies the payload; the code of the relay that follows the call is then skipped,
  but what the library has done before it raised stays done.
\<close>

text \<open>
  \<^verbatim>\<open>readSyncStep2\<close> and \<^verbatim>\<open>readUpdate\<close> of y-protocols: \<^verbatim>\<open>Y.applyUpdate\<close> with the
  connection as the origin of the transaction. The \<^verbatim>\<open>update\<close> event runs the handler
  of lines 107 to 118 unless the document is destroyed.
\<close>

definition readUpdate :: "'y engine \<Rightarrow> docid \<Rightarrow> conn \<Rightarrow> blob \<Rightarrow> 'y relay \<Rightarrow> 'y relay \<times> error option" where
  "readUpdate E d ws u st =
     (case heap st d of
        None \<Rightarrow> (st, None)
      | Some doc \<Rightarrow>
          let y = fst (applyUpdate E (ydoc doc) u);
              ev = fst (snd (applyUpdate E (ydoc doc) u));
              raised = snd (snd (applyUpdate E (ydoc doc) u));
              st1 = st\<lparr>heap := (heap st)(d \<mapsto> doc\<lparr>ydoc := y\<rparr>)\<rparr>;
              st2 = (case ev of
                       None \<Rightarrow> st1
                     | Some update \<Rightarrow>
                         if destroyed doc then st1
                         else docUpdateHandler d update (OConn ws) st1)
          in (st2, if raised then Some CorruptUpdate else None))"

definition handleSync :: "'y engine \<Rightarrow> docid \<Rightarrow> conn \<Rightarrow> payload \<Rightarrow> 'y relay \<Rightarrow> 'y relay \<times> error option" where
  "handleSync E d ws p st =
     (case asSync p of
        None \<Rightarrow> (st, Some CorruptUpdate)
      | Some (SyncStep1 sv) \<Rightarrow>
          (case heap st d of
             None \<Rightarrow> (st, None)
           | Some doc \<Rightarrow>
               (case encodeStateAsUpdate E (ydoc doc) sv of
                  None \<Rightarrow> (st, Some CorruptUpdate)
                | Some u \<Rightarrow> (send d ws (MsgSync (SyncStep2 u)) st, None)))
      | Some (SyncStep2 u) \<Rightarrow> readUpdate E d ws u st
      | Some (SyncUpdate u) \<Rightarrow> readUpdate E d ws u st)"

text \<open>
  Lines 218 to 231. When \<^verbatim>\<open>applyAwarenessUpdate\<close> raises on a later entry, the entries
  before it are in the table, the event has not fired and the broadcast of line 227 is
  not reached.
\<close>

definition handleAwareness :: "docid \<Rightarrow> conn \<Rightarrow> payload \<Rightarrow> 'y relay \<Rightarrow> 'y relay \<times> error option" where
  "handleAwareness d ws p st =
     (case asAwareness p of
        None \<Rightarrow> (st, Some CorruptUpdate)
      | Some awarenessUpdate \<Rightarrow>
          (case heap st d of
             None \<Rightarrow> (st, None)
           | Some doc \<Rightarrow>
               (case awarenessUpdate of
                  AwCorrupt es \<Rightarrow>
                    let aw = fst (applyAwarenessUpdate (awareness doc) es)
                    in (st\<lparr>heap := (heap st)(d \<mapsto> doc\<lparr>awareness := aw\<rparr>)\<rparr>,
                        Some CorruptUpdate)
                | AwUpdate es \<Rightarrow>
                    let aw = fst (applyAwarenessUpdate (awareness doc) es);
                        ch = snd (applyAwarenessUpdate (awareness doc) es);
                        st1 = st\<lparr>heap := (heap st)(d \<mapsto> doc\<lparr>awareness := aw\<rparr>)\<rparr>;
                        st2 = (if emits ch \<and> \<not> destroyed doc
                               then awarenessChangeHandler d ch (OConn ws) st1 else st1)
                    in (forEachSend d (map fst (conns_of st2 d)) (Some ws)
                          (MsgAwareness es) st2, None))))"

definition handleStats :: "docid \<Rightarrow> conn \<Rightarrow> 'y relay \<Rightarrow> 'y relay \<times> error option" where
  "handleStats d ws st = (send d ws (MsgStats (length (conns_of st d))) st, None)"

fun handleFrame :: "'y engine \<Rightarrow> docid \<Rightarrow> conn \<Rightarrow> frame \<Rightarrow> 'y relay \<Rightarrow> 'y relay \<times> error option" where
  "handleFrame E d ws Malformed st = (st, Some MalformedFrame)"
| "handleFrame E d ws (Frame t p) st =
     (if t = messageSync then handleSync E d ws p st
      else if t = messageAwareness then handleAwareness d ws p st
      else if t = messageStats then handleStats d ws st
      else (st, None))"

text \<open>
  The \<^verbatim>\<open>message\<close> handler: the \<^verbatim>\<open>catch\<close> clause logs the exception and does
  nothing else.
\<close>

definition onMessage :: "'y engine \<Rightarrow> conn \<Rightarrow> frame \<Rightarrow> 'y relay \<Rightarrow> 'y relay" where
  "onMessage E ws fr st =
     (case room (transports st ws) of
        None \<Rightarrow> st
      | Some d \<Rightarrow>
          (case handleFrame E d ws fr st of
             (st', None) \<Rightarrow> st'
           | (st', Some err) \<Rightarrow> st'\<lparr>errlog := errlog st' @ [err]\<rparr>))"

text \<open>The \<^verbatim>\<open>close\<close> handler (lines 248 to 250).\<close>

definition onClose :: "conn \<Rightarrow> 'y relay \<Rightarrow> 'y relay" where
  "onClose ws st =
     (case room (transports st ws) of None \<Rightarrow> st | Some d \<Rightarrow> closeConn d ws st)"

text \<open>
  The callback \<^verbatim>\<open>send\<close> passes to \<^verbatim>\<open>conn.send\<close> (lines 151 and 152), run later by
  the transport with the outcome of the write.
\<close>

definition sendCallback :: "docid \<Rightarrow> conn \<Rightarrow> bool \<Rightarrow> 'y relay \<Rightarrow> 'y relay" where
  "sendCallback d c err st = (if err then closeConn d c st else st)"

subsection \<open>Executions\<close>

text \<open>
  The relay is driven by events: a new connection for a room name, a frame from a
  connection, the \<^verbatim>\<open>close\<close> event of a connection, a failed write reported to the
  callback, and the transport changing state by itself.
\<close>

datatype event =
    Connect conn string clientID
  | Message conn frame
  | Closed conn
  | WriteFailed conn
  | Transport conn ready_state bool

fun step :: "'y engine \<Rightarrow> event \<Rightarrow> 'y relay \<Rightarrow> 'y relay" where
  "step E (Connect ws docName cid) st = setupConnection E ws docName cid st"
| "step E (Message ws fr) st = onMessage E ws fr st"
| "step E (Closed ws) st = onClose ws st"
| "step E (WriteFailed ws) st =
     (case room (transports st ws) of None \<Rightarrow> st | Some d \<Rightarrow> sendCallback d ws True st)"
| "step E (Transport ws rs thr) st =
     upd_transport ws (\<lambda>t. t\<lparr>readyState := rs, sendThrows := thr\<rparr>) st"

text \<open>A connection object is set up once.\<close>

fun enabled :: "event \<Rightarrow> 'y relay \<Rightarrow> bool" where
  "enabled (Connect ws docName cid) st = (room (transports st ws) = None)"
| "enabled _ st = True"

definition init :: "'y relay" where
  "init = \<lparr>docs = Map.empty, heap = Map.empty, nextDoc = 0,
           transports = (\<lambda>_. \<lparr>readyState = OPEN, sent = [], closeCalls = 0,
                                 sendThrows = False, room = None\<rparr>),
           errlog = []\<rparr>"

fun run :: "'y engine \<Rightarrow> event list \<Rightarrow> 'y relay \<Rightarrow> 'y relay" where
  "run E [] st = st"
| "run E (ev # evs) st = run E evs (step E ev st)"

inductive reachable :: "'y engine \<Rightarrow> 'y relay \<Rightarrow> bool" for E :: "'y engine" where
  reachable_init: "reachable E init"
| reachable_step: "reachable E st \<Longrightarrow> enabled ev st \<Longrightarrow> reachable E (step E ev st)"

section \<open>Relations between the states before and after a call\<close>

definition destroyed_of :: "'y relay \<Rightarrow> docid \<Rightarrow> bool" where
  "destroyed_of st d = (case heap st d of None \<Rightarrow> False | Some doc \<Rightarrow> destroyed doc)"

definition R_frame :: "docid \<Rightarrow> 'y relay \<Rightarrow> 'y relay \<Rightarrow> bool" where
  "R_frame d st st' \<longleftrightarrow>
     nextDoc st' = nextDoc st \<and> errlog st' = errlog st \<and>
     (\<forall>d'. d' \<noteq> d \<longrightarrow> heap st' d' = heap st d') \<and>
     map_option name (heap st' d) = map_option name (heap st d) \<and>
     map_option ydoc (heap st' d) = map_option ydoc (heap st d) \<and>
     map_option (\<lambda>doc. clientID (awareness doc)) (heap st' d) =
       map_option (\<lambda>doc. clientID (awareness doc)) (heap st d) \<and>
     (destroyed_of st d \<longrightarrow> destroyed_of st' d)"

definition present :: "'y relay \<Rightarrow> docid \<Rightarrow> clientID \<Rightarrow> bool" where
  "present st d i = (case heap st d of None \<Rightarrow> False | Some doc \<Rightarrow> has_state (awareness doc) i)"

definition R_table :: "docid \<Rightarrow> 'y relay \<Rightarrow> 'y relay \<Rightarrow> bool" where
  "R_table d st st' \<longleftrightarrow> (\<forall>i. present st' d i \<longrightarrow> present st d i)"

definition R_conns :: "docid \<Rightarrow> 'y relay \<Rightarrow> 'y relay \<Rightarrow> bool" where
  "R_conns d st st' \<longleftrightarrow>
     fst ` set (conns_of st' d) \<subseteq> fst ` set (conns_of st d) \<and>
     (distinct (map fst (conns_of st d)) \<longrightarrow> distinct (map fst (conns_of st' d)))"

definition name_of :: "'y relay \<Rightarrow> docid \<Rightarrow> string option" where
  "name_of st d = map_option name (heap st d)"

definition R_docs :: "docid \<Rightarrow> 'y relay \<Rightarrow> 'y relay \<Rightarrow> bool" where
  "R_docs d st st' \<longleftrightarrow>
     name_of st' d = name_of st d \<and>
     (conns_of st d = [] \<longrightarrow> conns_of st' d = []) \<and>
     (destroyed_of st d \<longrightarrow> destroyed_of st' d) \<and>
     (destroyed_of st' d \<longrightarrow> destroyed_of st d \<or> conns_of st' d = []) \<and>
     (docs st' = docs st \<or>
      (conns_of st' d = [] \<and> destroyed_of st' d \<and>
       (\<exists>n. name_of st d = Some n \<and> docs st' = (docs st)(n := None))))"

definition tr_ok :: "transport \<Rightarrow> transport \<Rightarrow> bool" where
  "tr_ok t t' \<longleftrightarrow>
     room t' = room t \<and> sendThrows t' = sendThrows t \<and>
     (readyState t' = readyState t \<or> readyState t = OPEN \<and> readyState t' = CLOSING) \<and>
     prefix (sent t) (sent t') \<and>
     closeCalls t \<le> closeCalls t' \<and>
     (readyState t \<noteq> OPEN \<or> sendThrows t \<longrightarrow> sent t' = sent t)"

definition R_tr :: "docid \<Rightarrow> 'y relay \<Rightarrow> 'y relay \<Rightarrow> bool" where
  "R_tr d st st' \<longleftrightarrow> (\<forall>c. tr_ok (transports st c) (transports st' c))"

text \<open>
  The state in the middle of the guarded branch of \<^verbatim>\<open>closeConn\<close>: the connection is
  gone from \<open>conns\<close>, its ids are gone from the table and the handler of the removal
  event has returned (line 172 is done, line 174 is next).
\<close>

definition after_removal :: "docid \<Rightarrow> conn \<Rightarrow> 'y relay \<Rightarrow> 'y relay" where
  "after_removal d c st =
     (if snd (deregister d c st) \<noteq> [] \<and> handlers_attached st d
      then awarenessChangeHandler d
             \<lparr>added = [], updated = [], removed = snd (deregister d c st)\<rparr> ONull
             (fst (deregister d c st))
      else fst (deregister d c st))"

text \<open>
  What a call does to the room registry: either nothing, and then the room has not
  become empty and has not been destroyed; or the room has become empty, is destroyed
  and its name is out of the registry.
\<close>

definition R_strong :: "docid \<Rightarrow> 'y relay \<Rightarrow> 'y relay \<Rightarrow> bool" where
  "R_strong d st st' \<longleftrightarrow>
     (docs st' = docs st \<and>
      (conns_of st' d = [] \<longrightarrow> conns_of st d = []) \<and>
      (destroyed_of st' d \<longrightarrow> destroyed_of st d)) \<or>
     (conns_of st d \<noteq> [] \<and> conns_of st' d = [] \<and> destroyed_of st' d \<and>
      (\<exists>n. name_of st d = Some n \<and> docs st' = (docs st)(n := None)))"

text \<open>
  The invariant of the executions: a name in the registry leads to a live room of that
  name with at least one connection; a room with a connection is the one the registry
  has under its name; a room without connections is destroyed; the keys of \<open>conns\<close>
  are distinct; every allocated document is below \<open>nextDoc\<close>.
\<close>

definition relay_inv :: "'y relay \<Rightarrow> bool" where
  "relay_inv st \<longleftrightarrow>
     (\<forall>n d. docs st n = Some d \<longrightarrow>
        (\<exists>doc. heap st d = Some doc \<and> name doc = n \<and> conns doc \<noteq> [] \<and> \<not> destroyed doc)) \<and>
     (\<forall>d doc. heap st d = Some doc \<longrightarrow>
        (conns doc \<noteq> [] \<longrightarrow> docs st (name doc) = Some d) \<and>
        (conns doc = [] \<longrightarrow> destroyed doc) \<and>
        distinct (map fst (conns doc)) \<and>
        d < nextDoc st)"

fun enabled_run :: "'y engine \<Rightarrow> event list \<Rightarrow> 'y relay \<Rightarrow> bool" where
  "enabled_run E [] st = True"
| "enabled_run E (ev # evs) st = (enabled ev st \<and> enabled_run E evs (step E ev st))"

text \<open>The payloads a call has added to the outbox of a connection.\<close>

definition new_msgs :: "'y relay \<Rightarrow> 'y relay \<Rightarrow> conn \<Rightarrow> msg list" where
  "new_msgs st st' x = drop (length (sent (transports st x))) (sent (transports st' x))"

fun is_awareness :: "msg \<Rightarrow> bool" where
  "is_awareness (MsgAwareness es) = True"
| "is_awareness m = False"

definition R_only_aw :: "conn \<Rightarrow> docid \<Rightarrow> 'y relay \<Rightarrow> 'y relay \<Rightarrow> bool" where
  "R_only_aw x d st st' \<longleftrightarrow>
     prefix (sent (transports st x)) (sent (transports st' x)) \<and>
     (\<forall>m\<in>set (new_msgs st st' x). is_awareness m)"

definition R_kept :: "conn \<Rightarrow> docid \<Rightarrow> 'y relay \<Rightarrow> 'y relay \<Rightarrow> bool" where
  "R_kept x d st st' \<longleftrightarrow>
     (registered st d x \<and> healthy st x \<longrightarrow> registered st' d x \<and> healthy st' x)"

text \<open>
  What a call leaves alone of a connection whose transport takes payloads: everything
  of the transport but the outbox, and the entry of the connection in \<open>conns\<close>.
\<close>

definition R_sender :: "conn \<Rightarrow> docid \<Rightarrow> 'y relay \<Rightarrow> 'y relay \<Rightarrow> bool" where
  "R_sender x d st st' \<longleftrightarrow>
     (healthy st x \<longrightarrow>
        transports st' x = (transports st x)\<lparr>sent := sent (transports st' x)\<rparr> \<and>
        map_of (conns_of st' d) x = map_of (conns_of st d) x)"



section \<open>Concrete executions\<close>

text \<open>
  A stand-in for the CRDT engine in the concrete executions below: a document is a list
  of numbers without repetition, an update adds the numbers it has that are new, and
  the state vector is the document itself. The number 255 in an update does not
  decode: the numbers before it are integrated and then the engine raises.
\<close>

definition gsetEngine :: "nat list engine" where
  "gsetEngine =
     \<lparr>newDoc = [],
      encodeStateVector = (\<lambda>y. y),
      encodeStateAsUpdate = (\<lambda>y sv. Some (filter (\<lambda>x. x \<notin> set sv) y)),
      applyUpdate = (\<lambda>y u. let new = filter (\<lambda>x. x \<notin> set y)
                                       (remdups (takeWhile (\<lambda>x. x \<noteq> 255) u))
                            in (y @ new, if new = [] then None else Some new, 255 \<in> set u))\<rparr>"

definition noPayload :: payload where
  "noPayload = \<lparr>asSync = None, asAwareness = None\<rparr>"

definition awFrame :: "aw_entry list \<Rightarrow> frame" where
  "awFrame es = Frame messageAwareness \<lparr>asSync = None, asAwareness = Some (AwUpdate es)\<rparr>"

text \<open>A presence frame whose update is cut off after the entries \<open>es\<close>.\<close>

definition awFrameCut :: "aw_entry list \<Rightarrow> frame" where
  "awFrameCut es = Frame messageAwareness \<lparr>asSync = None, asAwareness = Some (AwCorrupt es)\<rparr>"

definition syncFrame :: "sync_msg \<Rightarrow> frame" where
  "syncFrame sm = Frame messageSync \<lparr>asSync = Some sm, asAwareness = None\<rparr>"

definition statsFrame :: frame where
  "statsFrame = Frame messageStats noPayload"

text \<open>Two connections in room \<open>r\<close>, both open.\<close>

definition two_open :: "nat list relay" where
  "two_open = run gsetEngine [Connect 1 ''r'' 100, Connect 2 ''r'' 200] init"

text \<open>The same room after a write to connection 1 has failed.\<close>

definition after_write_failure :: "nat list relay" where
  "after_write_failure = step gsetEngine (WriteFailed 1) two_open"

text \<open>One connection in room \<open>r\<close> whose transport is already closing.\<close>

definition one_closing :: "nat list relay" where
  "one_closing = run gsetEngine [Connect 1 ''r'' 100, Transport 1 CLOSING False] init"


text \<open>
  Two connections in room \<open>r\<close>; connection 1 has published the state of id 5 and its
  transport is closing.
\<close>

definition closing_with_presence :: "nat list relay" where
  "closing_with_presence =
     run gsetEngine [Connect 1 ''r'' 100, Connect 2 ''r'' 200,
                     Message 1 (awFrame [(5, 1, Some (JStr ''a''))]), Transport 1 CLOSING False] init"

text \<open>
  Three connections in room \<open>r\<close>; connection 2 has published the state of id 7 and
  its transport is closing, connections 1 and 3 are open.
\<close>

definition three_one_closing :: "nat list relay" where
  "three_one_closing =
     run gsetEngine [Connect 1 ''r'' 100, Connect 2 ''r'' 200, Connect 3 ''r'' 300,
                     Message 2 (awFrame [(7, 1, Some (JStr ''b''))]), Transport 2 CLOSING False] init"

text \<open>
  Room \<open>r\<close> is left by its only connection and then joined by a new one: the name is
  used again after the room has become empty.
\<close>

definition reused_after_empty :: "nat list relay" where
  "reused_after_empty =
     run gsetEngine [Connect 1 ''r'' 100, Message 1 (syncFrame (SyncUpdate [4])),
                     Closed 1, Connect 2 ''r'' 200] init"





text \<open>
  Two connections in room \<open>r\<close>; connection 2 has published the state of id 7; the
  transports of both are closing.
\<close>

definition both_closing :: "nat list relay" where
  "both_closing =
     run gsetEngine [Connect 1 ''r'' 100, Connect 2 ''r'' 200,
                     Message 2 (awFrame [(7, 1, Some (JStr ''b''))]),
                     Transport 1 CLOSING False, Transport 2 CLOSING False] init"


section \<open>Termination of the mutual recursion\<close>

text \<open>
  A nested call of \<^verbatim>\<open>closeConn\<close> happens after a connection has left \<open>conns\<close>,
  and nothing in the recursion adds a connection: the number of registered connections
  bounds the depth.
\<close>

lemma conns_of_upd_transport [simp]: "conns_of (upd_transport c f st) d = conns_of st d"
  by (simp add: conns_of_def upd_transport_def)

lemma conns_of_transmit [simp]: "conns_of (transmit c m st) d = conns_of st d"
  by (simp add: transmit_def)

lemma conns_destroy [simp]: "conns (destroy doc) = conns doc"
  by (simp add: destroy_def)

lemma conns_of_destroyIfEmpty [simp]: "conns_of (destroyIfEmpty d st) d' = conns_of st d'"
  by (simp add: conns_of_def destroyIfEmpty_def split: option.splits)

lemma length_update_present:
  "map_of al k \<noteq> None \<Longrightarrow> length (AList.update k v al) = length al"
  by (induction al) auto

lemma length_track_controlled [simp]:
  "length (conns (track_controlled ch orig doc)) = length (conns doc)"
  by (auto simp: track_controlled_def length_update_present
           split: origin.splits option.splits)

lemma length_conns_of_track [simp]:
  "length (conns_of (upd_doc d (track_controlled ch orig) st) d') = length (conns_of st d')"
  by (simp add: conns_of_def upd_doc_def split: option.splits)

lemma length_delete_less:
  "map_of al k \<noteq> None \<Longrightarrow> length (AList.delete k al) < length al"
  by (induction al) (auto simp: AList.delete_eq less_Suc_eq_le intro: le_trans[OF length_filter_le])

lemma conns_of_deregister:
  "conns_of (fst (deregister d c st)) d' =
     (if d' = d then AList.delete c (conns_of st d) else conns_of st d')"
  by (auto simp: conns_of_def deregister_def AList.delete_notin_dom map_of_eq_None_iff
      delete_id
      split: option.splits prod.splits)

lemma length_deregister_less:
  "registered st d c \<Longrightarrow>
     length (conns_of (fst (deregister d c st)) d) < length (conns_of st d)"
  by (simp add: conns_of_deregister registered_def length_delete_less)

lemma length_deregister_le:
  "length (conns_of (fst (deregister d c st)) d') \<le> length (conns_of st d')"
  by (simp add: conns_of_deregister length_delete_le)

lemma conns_le_partial:
  "send_closeConn_awarenessChangeHandler_forEachSend_dom (Inl (Inl (d, c, m, st))) \<Longrightarrow>
     length (conns_of (send d c m st) d) \<le> length (conns_of st d)"
  "send_closeConn_awarenessChangeHandler_forEachSend_dom (Inl (Inr (d, c, st))) \<Longrightarrow>
     length (conns_of (closeConn d c st) d) \<le> length (conns_of st d)"
  "send_closeConn_awarenessChangeHandler_forEachSend_dom (Inr (Inl (d, ch, orig, st))) \<Longrightarrow>
     length (conns_of (awarenessChangeHandler d ch orig st) d) \<le> length (conns_of st d)"
  "send_closeConn_awarenessChangeHandler_forEachSend_dom (Inr (Inr (d, cs, excl, m, st))) \<Longrightarrow>
     length (conns_of (forEachSend d cs excl m st) d) \<le> length (conns_of st d)"
proof (induct rule: send_closeConn_awarenessChangeHandler_forEachSend.pinduct)
  case (1 d c m st)
  then show ?case by (simp add: send.psimps)
next
  case (2 d c st)
  then show ?case
    using length_deregister_le[of d c st d]
    by (auto simp: closeConn.psimps Let_def intro: order_trans)
next
  case (3 d ch orig st)
  then show ?case by (simp add: awarenessChangeHandler.psimps Let_def)
next
  case (4 d excl m st)
  then show ?case by (simp add: forEachSend.psimps)
next
  case (5 d c cs excl m st)
  then show ?case by (auto simp: forEachSend.psimps intro: order_trans)
qed

termination send
proof (relation "inv_image (less_than <*lex*> less_than)
     (\<lambda>x. case x of
        Inl (Inl (d, c, m, st)) \<Rightarrow> (length (conns_of st d), 1)
      | Inl (Inr (d, c, st)) \<Rightarrow> (length (conns_of st d), 0)
      | Inr (Inl (d, ch, orig, st)) \<Rightarrow> (length (conns_of st d), 3 + length (conns_of st d))
      | Inr (Inr (d, cs, excl, m, st)) \<Rightarrow> (length (conns_of st d), 2 + length cs))",
    goal_cases)
  case 1
  show ?case by (intro wf_inv_image wf_lex_prod wf_less_than)
next
  case (7 d c cs excl m st)
  then show ?case using conns_le_partial(1)[of d c m st] by auto
qed (simp_all add: length_deregister_less)


section \<open>Properties of the mutual recursion\<close>

declare send.simps [simp del] closeConn.simps [simp del]
  awarenessChangeHandler.simps [simp del] forEachSend.simps [simp del]

lemma send_healthy: "healthy st c \<Longrightarrow> send d c m st = transmit c m st"
  by (simp add: send.simps healthy_def transmit_def)

lemma send_unhealthy: "\<not> healthy st c \<Longrightarrow> send d c m st = closeConn d c st"
  by (simp add: send.simps healthy_def)

lemma mutual_rel:
  fixes R :: "docid \<Rightarrow> 'y relay \<Rightarrow> 'y relay \<Rightarrow> bool"
  assumes rfl: "\<And>d st. R d st st"
    and trn: "\<And>d a b c. R d a b \<Longrightarrow> R d b c \<Longrightarrow> R d a c"
    and wr: "\<And>d c m st. healthy st c \<Longrightarrow> R d st (transmit c m st)"
    and cls: "\<And>d c st. R d st (upd_transport c close_transport st)"
    and der: "\<And>d c st. registered st d c \<Longrightarrow> R d st (fst (deregister d c st))"
    and trk: "\<And>d ch orig st. R d st (upd_doc d (track_controlled ch orig) st)"
    and dst: "\<And>d st. R d st (destroyIfEmpty d st)"
  shows "R d st (send d c m st)"
    and "R d st (closeConn d c st)"
    and "R d st (awarenessChangeHandler d ch orig st)"
    and "R d st (forEachSend d cs excl m st)"
proof (induction d c m st and d c st and d ch orig st and d cs excl m st
    rule: send_closeConn_awarenessChangeHandler_forEachSend.induct)
  case (1 d c m st)
  show ?case
  proof (cases "healthy st c")
    case True
    then show ?thesis by (simp add: send_healthy wr)
  next
    case False
    then have "R d st (closeConn d c st)"
      using "1.IH" by (auto simp: healthy_def)
    with False show ?thesis by (simp add: send_unhealthy)
  qed
next
  case (2 d c st)
  show ?case
  proof (cases "registered st d c")
    case False
    then show ?thesis by (simp add: closeConn.simps cls)
  next
    case True
    let ?st1 = "fst (deregister d c st)"
    let ?rs = "snd (deregister d c st)"
    let ?st2 = "if ?rs \<noteq> [] \<and> handlers_attached st d
                then awarenessChangeHandler d \<lparr>added = [], updated = [], removed = ?rs\<rparr> ONull ?st1
                else ?st1"
    have a: "R d st ?st1" using True by (rule der)
    have b: "R d ?st1 ?st2" using "2.IH"[OF True refl refl] rfl by auto
    have c: "R d ?st2 (destroyIfEmpty d ?st2)" by (rule dst)
    have e: "closeConn d c st = upd_transport c close_transport (destroyIfEmpty d ?st2)"
      using True by (simp add: closeConn.simps Let_def)
    show ?thesis unfolding e using a b c trn cls by blast
  qed
next
  case (3 d ch orig st)
  show ?case
    using "3.IH"[OF refl refl refl] trk trn
    by (simp add: awarenessChangeHandler.simps Let_def) blast
next
  case (4 d excl m st)
  show ?case by (simp add: forEachSend.simps rfl)
next
  case (5 d c cs excl m st)
  show ?case
  proof (cases "registered st d c \<and> excl \<noteq> Some c")
    case True
    then show ?thesis
      using "5.IH"(1,2)[OF True] trn by (simp add: forEachSend.simps)
  next
    case False
    then show ?thesis using "5.IH"(3)[OF False] by (auto simp: forEachSend.simps)
  qed
qed

subsection \<open>Effects of the primitive steps\<close>

lemma upd_transport_fields [simp]:
  "heap (upd_transport c f st) = heap st"
  "docs (upd_transport c f st) = docs st"
  "nextDoc (upd_transport c f st) = nextDoc st"
  "errlog (upd_transport c f st) = errlog st"
  "transports (upd_transport c f st) = (transports st)(c := f (transports st c))"
  by (simp_all add: upd_transport_def)

lemma transmit_fields [simp]:
  "heap (transmit c m st) = heap st"
  "docs (transmit c m st) = docs st"
  "nextDoc (transmit c m st) = nextDoc st"
  "errlog (transmit c m st) = errlog st"
  "transports (transmit c m st) =
     (transports st)(c := (transports st c)\<lparr>sent := sent (transports st c) @ [m]\<rparr>)"
  by (simp_all add: transmit_def)

lemma deregister_fields [simp]:
  "docs (fst (deregister d c st)) = docs st"
  "nextDoc (fst (deregister d c st)) = nextDoc st"
  "errlog (fst (deregister d c st)) = errlog st"
  "transports (fst (deregister d c st)) = transports st"
  by (simp_all add: deregister_def split: option.splits prod.splits)

lemma heap_deregister:
  "heap (fst (deregister d c st)) d' =
     (if d' = d
      then (case heap st d of
              None \<Rightarrow> None
            | Some doc \<Rightarrow>
                (case map_of (conns doc) c of
                   None \<Rightarrow> Some doc
                 | Some ids \<Rightarrow>
                     Some (doc\<lparr>conns := AList.delete c (conns doc),
                               awareness := fst (removeAwarenessStates (awareness doc) ids)\<rparr>)))
      else heap st d')"
  by (simp add: deregister_def split: option.splits prod.splits)

lemma upd_doc_fields [simp]:
  "docs (upd_doc d f st) = docs st"
  "nextDoc (upd_doc d f st) = nextDoc st"
  "errlog (upd_doc d f st) = errlog st"
  "transports (upd_doc d f st) = transports st"
  "heap (upd_doc d f st) d' = (if d' = d then map_option f (heap st d) else heap st d')"
  by (simp_all add: upd_doc_def split: option.splits)

lemma destroyIfEmpty_fields [simp]:
  "nextDoc (destroyIfEmpty d st) = nextDoc st"
  "errlog (destroyIfEmpty d st) = errlog st"
  "transports (destroyIfEmpty d st) = transports st"
  "heap (destroyIfEmpty d st) d' =
     (if d' = d then map_option (\<lambda>doc. if conns doc = [] then destroy doc else doc) (heap st d)
      else heap st d')"
  "docs (destroyIfEmpty d st) =
     (case heap st d of
        None \<Rightarrow> docs st
      | Some doc \<Rightarrow> if conns doc = [] then (docs st)(name doc := None) else docs st)"
  by (simp_all add: destroyIfEmpty_def split: option.splits)

lemma destroy_fields [simp]:
  "name (destroy doc) = name doc"
  "ydoc (destroy doc) = ydoc doc"
  "destroyed (destroy doc)"
  "clientID (awareness (destroy doc)) = clientID (awareness doc)"
  by (simp_all add: destroy_def setLocalStateNull_def)

lemma track_controlled_fields [simp]:
  "name (track_controlled ch orig doc) = name doc"
  "ydoc (track_controlled ch orig doc) = ydoc doc"
  "destroyed (track_controlled ch orig doc) = destroyed doc"
  "awareness (track_controlled ch orig doc) = awareness doc"
  by (simp_all add: track_controlled_def split: origin.splits option.splits)

lemma removeAwarenessStates_clientID [simp]:
  "clientID (fst (removeAwarenessStates aw ids)) = clientID aw"
  by (induction aw ids rule: removeAwarenessStates.induct) (auto split: prod.splits)

subsection \<open>What the recursion leaves alone\<close>

lemma frame_rel:
  shows "R_frame d st (send d c m st)"
    and "R_frame d st (closeConn d c st)"
    and "R_frame d st (awarenessChangeHandler d ch orig st)"
    and "R_frame d st (forEachSend d cs excl m st)"
proof -
  have 1: "\<And>d (st :: 'a relay). R_frame d st st" by (simp add: R_frame_def)
  have 2: "\<And>d (a :: 'a relay) b c. R_frame d a b \<Longrightarrow> R_frame d b c \<Longrightarrow> R_frame d a c"
    by (simp add: R_frame_def)
  have 3: "\<And>d c m (st :: 'a relay). healthy st c \<Longrightarrow> R_frame d st (transmit c m st)"
    by (simp add: R_frame_def destroyed_of_def)
  have 4: "\<And>d c (st :: 'a relay). R_frame d st (upd_transport c close_transport st)"
    by (simp add: R_frame_def destroyed_of_def)
  have 5: "\<And>d c (st :: 'a relay). registered st d c \<Longrightarrow> R_frame d st (fst (deregister d c st))"
    by (auto simp: R_frame_def heap_deregister destroyed_of_def split: option.splits)
  have 6: "\<And>d ch orig (st :: 'a relay). R_frame d st (upd_doc d (track_controlled ch orig) st)"
    by (auto simp: R_frame_def destroyed_of_def split: option.splits)
  have 7: "\<And>d (st :: 'a relay). R_frame d st (destroyIfEmpty d st)"
    by (auto simp: R_frame_def destroyed_of_def split: option.splits)
  note r = mutual_rel[of R_frame, OF 1 2 3 4 5 6 7]
  show "R_frame d st (send d c m st)" by (rule r)
  show "R_frame d st (closeConn d c st)" by (rule r)
  show "R_frame d st (awarenessChangeHandler d ch orig st)" by (rule r)
  show "R_frame d st (forEachSend d cs excl m st)" by (rule r)
qed

lemma has_state_delete [simp]:
  "has_state (aw\<lparr>states := AList.delete k (states aw), meta := m\<rparr>) i
     \<longleftrightarrow> i \<noteq> k \<and> has_state aw i"
  by (auto simp: has_state_def delete_conv)

lemma removeAwarenessStates_has_state:
  "has_state (fst (removeAwarenessStates aw ids)) i \<longleftrightarrow> has_state aw i \<and> i \<notin> set ids"
  by (induction aw ids rule: removeAwarenessStates.induct)
     (auto split: prod.splits)

lemma has_state_setLocalStateNull:
  "has_state (setLocalStateNull aw) i \<longleftrightarrow> i \<noteq> clientID aw \<and> has_state aw i"
  by (simp add: setLocalStateNull_def)

lemma has_state_destroy: "has_state (awareness (destroy doc)) i \<Longrightarrow> has_state (awareness doc) i"
  by (simp add: destroy_def has_state_setLocalStateNull split: if_splits)

lemma table_rel:
  shows "R_table d st (send d c m st)"
    and "R_table d st (closeConn d c st)"
    and "R_table d st (awarenessChangeHandler d ch orig st)"
    and "R_table d st (forEachSend d cs excl m st)"
proof -
  have 1: "\<And>d (st :: 'a relay). R_table d st st" by (simp add: R_table_def)
  have 2: "\<And>d (a :: 'a relay) b c. R_table d a b \<Longrightarrow> R_table d b c \<Longrightarrow> R_table d a c"
    by (simp add: R_table_def)
  have 3: "\<And>d c m (st :: 'a relay). healthy st c \<Longrightarrow> R_table d st (transmit c m st)"
    by (simp add: R_table_def present_def)
  have 4: "\<And>d c (st :: 'a relay). R_table d st (upd_transport c close_transport st)"
    by (simp add: R_table_def present_def)
  have 5: "\<And>d c (st :: 'a relay). registered st d c \<Longrightarrow> R_table d st (fst (deregister d c st))"
    by (auto simp: R_table_def present_def heap_deregister removeAwarenessStates_has_state
        split: option.splits)
  have 6: "\<And>d ch orig (st :: 'a relay). R_table d st (upd_doc d (track_controlled ch orig) st)"
    by (auto simp: R_table_def present_def split: option.splits)
  have 7: "\<And>d (st :: 'a relay). R_table d st (destroyIfEmpty d st)"
    by (auto simp: R_table_def present_def dest: has_state_destroy split: option.splits if_splits)
  note r = mutual_rel[of R_table, OF 1 2 3 4 5 6 7]
  show "R_table d st (send d c m st)" by (rule r)
  show "R_table d st (closeConn d c st)" by (rule r)
  show "R_table d st (awarenessChangeHandler d ch orig st)" by (rule r)
  show "R_table d st (forEachSend d cs excl m st)" by (rule r)
qed


lemma keys_update_present:
  "map_of al k \<noteq> None \<Longrightarrow> map fst (AList.update k v al) = map fst al"
  by (induction al) auto

lemma keys_track_controlled [simp]:
  "map fst (conns (track_controlled ch orig doc)) = map fst (conns doc)"
  by (auto simp: track_controlled_def keys_update_present split: origin.splits option.splits)

lemma keys_delete: "map fst (AList.delete k al) = removeAll k (map fst al)"
  by (induction al) auto

lemma conns_of_track [simp]:
  "map fst (conns_of (upd_doc d (track_controlled ch orig) st) d') = map fst (conns_of st d')"
  by (simp add: conns_of_def split: option.splits)

lemma conns_rel:
  shows "R_conns d st (send d c m st)"
    and "R_conns d st (closeConn d c st)"
    and "R_conns d st (awarenessChangeHandler d ch orig st)"
    and "R_conns d st (forEachSend d cs excl m st)"
proof -
  have 1: "\<And>d (st :: 'a relay). R_conns d st st" by (simp add: R_conns_def)
  have 2: "\<And>d (a :: 'a relay) b c. R_conns d a b \<Longrightarrow> R_conns d b c \<Longrightarrow> R_conns d a c"
    unfolding R_conns_def by blast
  have 3: "\<And>d c m (st :: 'a relay). healthy st c \<Longrightarrow> R_conns d st (transmit c m st)"
    by (simp add: R_conns_def)
  have 4: "\<And>d c (st :: 'a relay). R_conns d st (upd_transport c close_transport st)"
    by (simp add: R_conns_def)
  have 5: "\<And>d c (st :: 'a relay). registered st d c \<Longrightarrow> R_conns d st (fst (deregister d c st))"
    by (auto simp: R_conns_def conns_of_deregister keys_delete distinct_removeAll
        simp flip: set_map)
  have 6: "\<And>d ch orig (st :: 'a relay). R_conns d st (upd_doc d (track_controlled ch orig) st)"
    by (simp add: R_conns_def flip: set_map)
  have 7: "\<And>d (st :: 'a relay). R_conns d st (destroyIfEmpty d st)"
    by (simp add: R_conns_def)
  note r = mutual_rel[of R_conns, OF 1 2 3 4 5 6 7]
  show "R_conns d st (send d c m st)" by (rule r)
  show "R_conns d st (closeConn d c st)" by (rule r)
  show "R_conns d st (awarenessChangeHandler d ch orig st)" by (rule r)
  show "R_conns d st (forEachSend d cs excl m st)" by (rule r)
qed

lemma R_docs_refl: "R_docs d st st" by (simp add: R_docs_def)

lemma R_docs_trans:
  assumes ab: "R_docs d a b" and bc: "R_docs d b c"
  shows "R_docs d a c"
proof -
  have nb: "name_of b d = name_of a d" and nc: "name_of c d = name_of b d"
    and eb: "conns_of a d = [] \<longrightarrow> conns_of b d = []"
    and ec: "conns_of b d = [] \<longrightarrow> conns_of c d = []"
    and db: "destroyed_of a d \<longrightarrow> destroyed_of b d"
    and dc: "destroyed_of b d \<longrightarrow> destroyed_of c d"
    and ub: "destroyed_of b d \<longrightarrow> destroyed_of a d \<or> conns_of b d = []"
    and uc: "destroyed_of c d \<longrightarrow> destroyed_of b d \<or> conns_of c d = []"
    using ab bc by (simp_all add: R_docs_def)
  have ua: "destroyed_of c d \<longrightarrow> destroyed_of a d \<or> conns_of c d = []"
    using ub uc ec by blast
  have ab': "docs b = docs a \<or>
      (conns_of b d = [] \<and> destroyed_of b d \<and>
       (\<exists>n. name_of a d = Some n \<and> docs b = (docs a)(n := None)))"
    using ab by (simp add: R_docs_def)
  have bc': "docs c = docs b \<or>
      (conns_of c d = [] \<and> destroyed_of c d \<and>
       (\<exists>n. name_of b d = Some n \<and> docs c = (docs b)(n := None)))"
    using bc by (simp add: R_docs_def)
  have "docs c = docs a \<or>
      (conns_of c d = [] \<and> destroyed_of c d \<and>
       (\<exists>n. name_of a d = Some n \<and> docs c = (docs a)(n := None)))"
  proof (cases "docs b = docs a")
    case True
    then show ?thesis using bc' nb by metis
  next
    case False
    then obtain n where b: "conns_of b d = []" "destroyed_of b d" "name_of a d = Some n"
      "docs b = (docs a)(n := None)"
      using ab' by blast
    have c: "conns_of c d = []" "destroyed_of c d" using b ec dc by simp_all
    have "docs c = (docs a)(n := None)"
    proof (cases "docs c = docs b")
      case True
      then show ?thesis using b by simp
    next
      case False
      then obtain n' where "name_of b d = Some n'" "docs c = (docs b)(n' := None)"
        using bc' by blast
      then have "n' = n" using nb b(3) by simp
      then show ?thesis using \<open>docs c = (docs b)(n' := None)\<close> b(4) by simp
    qed
    then show ?thesis using b(3) c by blast
  qed
  then show ?thesis using nb nc eb ec db dc ua by (simp add: R_docs_def)
qed

lemma conns_track_Nil [simp]: "conns (track_controlled ch orig doc) = [] \<longleftrightarrow> conns doc = []"
  using length_track_controlled[of ch orig doc] by (metis length_0_conv)

lemma R_docs_transmit: "healthy st c \<Longrightarrow> R_docs d st (transmit c m st)"
    by (simp add: R_docs_def name_of_def destroyed_of_def)

lemma R_docs_close: "R_docs d st (upd_transport c close_transport st)"
    by (simp add: R_docs_def name_of_def destroyed_of_def)

lemma R_docs_deregister: "registered st d c \<Longrightarrow> R_docs d st (fst (deregister d c st))"
    by (simp add: R_docs_def name_of_def destroyed_of_def heap_deregister conns_of_deregister
        split: option.splits)

lemma R_docs_track: "R_docs d st (upd_doc d (track_controlled ch orig) st)"
  by (simp add: R_docs_def name_of_def destroyed_of_def conns_of_def 
        split: option.splits)

lemma R_docs_destroyIfEmpty: "R_docs d st (destroyIfEmpty d st)"
    by (simp add: R_docs_def name_of_def destroyed_of_def conns_of_def split: option.splits)

lemma docs_rel:
  shows "R_docs d st (send d c m st)"
    and "R_docs d st (closeConn d c st)"
    and "R_docs d st (awarenessChangeHandler d ch orig st)"
    and "R_docs d st (forEachSend d cs excl m st)"
proof -
  note r = mutual_rel[of R_docs, OF R_docs_refl R_docs_trans R_docs_transmit R_docs_close R_docs_deregister R_docs_track R_docs_destroyIfEmpty]
  show "R_docs d st (send d c m st)" by (rule r)
  show "R_docs d st (closeConn d c st)" by (rule r)
  show "R_docs d st (awarenessChangeHandler d ch orig st)" by (rule r)
  show "R_docs d st (forEachSend d cs excl m st)" by (rule r)
qed

lemma tr_ok_trans: "tr_ok a b \<Longrightarrow> tr_ok b c \<Longrightarrow> tr_ok a c"
  unfolding tr_ok_def by (auto intro: prefix_order.trans)

lemma R_tr_trans: "R_tr d a b \<Longrightarrow> R_tr d b c \<Longrightarrow> R_tr d a c"
  unfolding R_tr_def by (blast intro: tr_ok_trans)

lemma tr_rel:
  shows "R_tr d st (send d c m st)"
    and "R_tr d st (closeConn d c st)"
    and "R_tr d st (awarenessChangeHandler d ch orig st)"
    and "R_tr d st (forEachSend d cs excl m st)"
proof -
  have 1: "\<And>d (st :: 'a relay). R_tr d st st" by (simp add: R_tr_def tr_ok_def)
  have 2: "\<And>d (a :: 'a relay) b c. R_tr d a b \<Longrightarrow> R_tr d b c \<Longrightarrow> R_tr d a c"
    by (rule R_tr_trans)
  have 3: "\<And>d c m (st :: 'a relay). healthy st c \<Longrightarrow> R_tr d st (transmit c m st)"
    by (simp add: R_tr_def tr_ok_def healthy_def)
  have 4: "\<And>d c (st :: 'a relay). R_tr d st (upd_transport c close_transport st)"
    by (simp add: R_tr_def tr_ok_def close_transport_def)
  have 5: "\<And>d c (st :: 'a relay). registered st d c \<Longrightarrow> R_tr d st (fst (deregister d c st))"
    by (simp add: R_tr_def tr_ok_def)
  have 6: "\<And>d ch orig (st :: 'a relay). R_tr d st (upd_doc d (track_controlled ch orig) st)"
    by (simp add: R_tr_def tr_ok_def)
  have 7: "\<And>d (st :: 'a relay). R_tr d st (destroyIfEmpty d st)"
    by (simp add: R_tr_def tr_ok_def)
  note r = mutual_rel[of R_tr, OF 1 2 3 4 5 6 7]
  show "R_tr d st (send d c m st)" by (rule r)
  show "R_tr d st (closeConn d c st)" by (rule r)
  show "R_tr d st (awarenessChangeHandler d ch orig st)" by (rule r)
  show "R_tr d st (forEachSend d cs excl m st)" by (rule r)
qed


subsection \<open>Closing a connection\<close>

lemma registered_iff: "registered st d c \<longleftrightarrow> c \<in> fst ` set (conns_of st d)"
  by (simp add: registered_def map_of_eq_None_iff)

lemma registered_upd_transport [simp]:
  "registered (upd_transport c f st) d x = registered st d x"
  by (simp add: registered_def)

lemma registered_transmit [simp]: "registered (transmit c m st) d x = registered st d x"
  by (simp add: registered_def)

lemma registered_destroyIfEmpty [simp]:
  "registered (destroyIfEmpty d st) d' x = registered st d' x"
  by (simp add: registered_def)

lemma registered_deregister:
  "registered (fst (deregister d c st)) d' x \<longleftrightarrow> registered st d' x \<and> \<not> (d' = d \<and> x = c)"
  by (auto simp: registered_def conns_of_deregister delete_conv)

lemma closeConn_unregistered:
  "\<not> registered st d c \<Longrightarrow> closeConn d c st = upd_transport c close_transport st"
  by (simp add: closeConn.simps)

text \<open>The state after the removal event of \<^verbatim>\<open>closeConn\<close> has run its handler.\<close>

lemma closeConn_registered:
  "registered st d c \<Longrightarrow>
     closeConn d c st =
       upd_transport c close_transport (destroyIfEmpty d (after_removal d c st))"
  by (simp add: closeConn.simps after_removal_def Let_def)

lemma R_conns_registered: "R_conns d st st' \<Longrightarrow> registered st' d x \<Longrightarrow> registered st d x"
  unfolding R_conns_def registered_iff by (elim conjE) (erule subsetD)

lemma registered_mono:
  "registered (send d c m st) d x \<Longrightarrow> registered st d x"
  "registered (closeConn d c st) d x \<Longrightarrow> registered st d x"
  "registered (awarenessChangeHandler d ch orig st) d x \<Longrightarrow> registered st d x"
  "registered (forEachSend d cs excl m st) d x \<Longrightarrow> registered st d x"
  by (erule R_conns_registered[OF conns_rel(1)], erule R_conns_registered[OF conns_rel(2)],
      erule R_conns_registered[OF conns_rel(3)], erule R_conns_registered[OF conns_rel(4)])

lemma not_registered_after_removal: "\<not> registered (after_removal d c st) d c"
  by (auto simp: after_removal_def registered_deregister dest: registered_mono)

lemma not_registered_after_closeConn: "\<not> registered (closeConn d c st) d c"
  by (cases "registered st d c")
     (simp_all add: closeConn_registered closeConn_unregistered not_registered_after_removal)

subsection \<open>The handlers on a transport that takes the payload\<close>

lemma healthy_upd_doc [simp]: "healthy (upd_doc d f st) c = healthy st c"
  by (simp add: healthy_def)

lemma healthy_transmit [simp]: "healthy (transmit c m st) x = healthy st x"
  by (simp add: healthy_def)

lemma healthy_set_room [simp]:
  "healthy (upd_transport ws (\<lambda>t. t\<lparr>room := r\<rparr>) st) c = healthy st c"
  by (simp add: healthy_def)

lemma getYDoc_transports [simp]: "transports (snd (getYDoc E n cid st)) = transports st"
  by (simp add: getYDoc_def split: option.splits)

lemma healthy_getYDoc [simp]: "healthy (snd (getYDoc E n cid st)) c = healthy st c"
  by (simp add: healthy_def)

lemma encodeAwarenessUpdate_ids [simp]: "map fst (encodeAwarenessUpdate aw ks) = ks"
  by (simp add: encodeAwarenessUpdate_def comp_def)

lemma setupConnection_healthy:
  assumes h: "healthy st ws"
    and g: "heap (snd (getYDoc E docName cid st)) (fst (getYDoc E docName cid st)) = Some doc"
  shows "setupConnection E ws docName cid st =
     (let d = fst (getYDoc E docName cid st);
          st3 = upd_transport ws (\<lambda>t. t\<lparr>room := Some d\<rparr>)
                  (upd_doc d (\<lambda>doc. doc\<lparr>conns := AList.update ws [] (conns doc)\<rparr>)
                     (snd (getYDoc E docName cid st)));
          st4 = transmit ws (MsgSync (SyncStep1 (encodeStateVector E (ydoc doc)))) st3
      in if states (awareness doc) = [] then st4
         else transmit ws (MsgAwareness (encodeAwarenessUpdate (awareness doc)
                                           (map fst (states (awareness doc))))) st4)"
  using h g by (simp add: setupConnection_def Let_def send_healthy)

lemma onMessage_stats:
  "room (transports st ws) = Some d \<Longrightarrow>
     onMessage E ws (Frame messageStats p) st = send d ws (MsgStats (length (conns_of st d))) st"
  by (simp add: onMessage_def handleStats_def messageStats_def messageSync_def
      messageAwareness_def)

subsection \<open>The recursion again, knowing who is sent what and who is closed\<close>

lemma R_tr_unhealthy: "R_tr d st st' \<Longrightarrow> \<not> healthy st x \<Longrightarrow> \<not> healthy st' x"
  unfolding R_tr_def healthy_def tr_ok_def by (erule allE[of _ x]) auto

lemma unhealthy_after_removal:
  assumes "\<not> healthy st x"
  shows "\<not> healthy (after_removal d c st) x"
proof -
  have u: "\<not> healthy (fst (deregister d c st)) x" using assms by (simp add: healthy_def)
  show ?thesis
    using u R_tr_unhealthy[OF tr_rel(3) u] by (simp add: after_removal_def)
qed

text \<open>
  \<open>T\<close> says which payloads a connection may be sent, \<open>K\<close> which connections, besides
  those whose transport does not take a payload, may be closed, and \<open>Q\<close> which
  origins the event of the awareness may have. The recursion itself sends presence
  messages only, closes only connections whose transport does not take the payload,
  and fires the event with the null origin only.
\<close>

lemma mutual_relG:
  fixes R :: "docid \<Rightarrow> 'y relay \<Rightarrow> 'y relay \<Rightarrow> bool"
    and T :: "conn \<Rightarrow> msg \<Rightarrow> bool" and K :: "conn \<Rightarrow> bool" and Q :: "origin \<Rightarrow> bool"
  assumes rfl: "\<And>d st. R d st st"
    and trn: "\<And>d a b c. R d a b \<Longrightarrow> R d b c \<Longrightarrow> R d a c"
    and aw: "\<And>c es. T c (MsgAwareness es)"
    and wr: "\<And>d c m st. healthy st c \<Longrightarrow> T c m \<Longrightarrow> R d st (transmit c m st)"
    and cls: "\<And>d c st. \<not> registered st d c \<Longrightarrow> \<not> healthy st c \<or> K c \<Longrightarrow>
                R d st (upd_transport c close_transport st)"
    and der: "\<And>d c st. registered st d c \<Longrightarrow> \<not> healthy st c \<or> K c \<Longrightarrow>
                R d st (fst (deregister d c st))"
    and nul: "Q ONull"
    and trk: "\<And>d ch orig st. Q orig \<Longrightarrow> R d st (upd_doc d (track_controlled ch orig) st)"
    and dst: "\<And>d st. R d st (destroyIfEmpty d st)"
  shows "T c m \<Longrightarrow> R d st (send d c m st)"
    and "\<not> healthy st c \<or> K c \<Longrightarrow> R d st (closeConn d c st)"
    and "Q orig \<Longrightarrow> R d st (awarenessChangeHandler d ch orig st)"
    and "(\<forall>c\<in>set cs. excl \<noteq> Some c \<longrightarrow> T c m) \<Longrightarrow> R d st (forEachSend d cs excl m st)"
proof (induction d c m st and d c st and d ch orig st and d cs excl m st
    rule: send_closeConn_awarenessChangeHandler_forEachSend.induct)
  case (1 d c m st)
  show ?case
  proof (cases "healthy st c")
    case True
    then show ?thesis using "1.prems" by (simp add: send_healthy wr)
  next
    case False
    then have "R d st (closeConn d c st)"
      using "1.IH" by (auto simp: healthy_def)
    with False show ?thesis by (simp add: send_unhealthy)
  qed
next
  case (2 d c st)
  show ?case
  proof (cases "registered st d c")
    case False
    then show ?thesis using "2.prems" by (simp add: closeConn_unregistered cls)
  next
    case True
    let ?st1 = "fst (deregister d c st)"
    let ?st2 = "after_removal d c st"
    have a: "R d st ?st1" using True "2.prems" by (rule der)
    have b: "R d ?st1 ?st2"
      using "2.IH"[OF True refl refl _ nul] rfl by (auto simp: after_removal_def)
    have c: "R d ?st2 (destroyIfEmpty d ?st2)" by (rule dst)
    have n: "\<not> registered (destroyIfEmpty d ?st2) d c"
      by (simp add: not_registered_after_removal)
    have k: "\<not> healthy (destroyIfEmpty d ?st2) c \<or> K c"
      using "2.prems" unhealthy_after_removal[of st c d c] by (auto simp: healthy_def)
    have e: "R d (destroyIfEmpty d ?st2) (closeConn d c st)"
      unfolding closeConn_registered[OF True] using n k by (rule cls)
    show ?thesis using a b c e trn by blast
  qed
next
  case (3 d ch orig st)
  show ?case
    using "3.IH"[OF refl refl refl] trk[OF "3.prems"] trn aw
    by (simp add: awarenessChangeHandler.simps Let_def) blast
next
  case (4 d excl m st)
  show ?case by (simp add: forEachSend.simps rfl)
next
  case (5 d c cs excl m st)
  show ?case
  proof (cases "registered st d c \<and> excl \<noteq> Some c")
    case True
    then have t: "T c m" using "5.prems" by simp
    have r: "\<forall>c\<in>set cs. excl \<noteq> Some c \<longrightarrow> T c m" using "5.prems" by simp
    show ?thesis
      using "5.IH"(1)[OF True t] "5.IH"(2)[OF True r] trn True
      by (simp add: forEachSend.simps)
  next
    case False
    have r: "\<forall>c\<in>set cs. excl \<noteq> Some c \<longrightarrow> T c m" using "5.prems" by simp
    show ?thesis using "5.IH"(3)[OF False r] False by (auto simp: forEachSend.simps)
  qed
qed

lemma new_msgs_refl [simp]: "new_msgs st st x = []"
  by (simp add: new_msgs_def)

lemma new_msgs_append:
  assumes "prefix (sent (transports a x)) (sent (transports b x))"
    and "prefix (sent (transports b x)) (sent (transports c x))"
  shows "new_msgs a c x = new_msgs a b x @ new_msgs b c x"
proof -
  obtain u where u: "sent (transports b x) = sent (transports a x) @ u"
    using assms(1) by (auto simp: prefix_def)
  obtain v where v: "sent (transports c x) = sent (transports b x) @ v"
    using assms(2) by (auto simp: prefix_def)
  show ?thesis by (simp add: new_msgs_def u v)
qed

lemma sent_new_msgs:
  "prefix (sent (transports a x)) (sent (transports b x)) \<Longrightarrow>
     sent (transports b x) = sent (transports a x) @ new_msgs a b x"
  by (auto simp: prefix_def new_msgs_def)

lemma R_only_aw_trans:
  assumes ab: "R_only_aw x d a b" and bc: "R_only_aw x d b c"
  shows "R_only_aw x d a c"
proof -
  have p1: "prefix (sent (transports a x)) (sent (transports b x))"
    and p2: "prefix (sent (transports b x)) (sent (transports c x))"
    and m1: "\<forall>m\<in>set (new_msgs a b x). is_awareness m"
    and m2: "\<forall>m\<in>set (new_msgs b c x). is_awareness m"
    using ab bc by (simp_all add: R_only_aw_def)
  have "prefix (sent (transports a x)) (sent (transports c x))"
    using p1 p2 by (rule prefix_order.trans)
  moreover have "\<forall>m\<in>set (new_msgs a c x). is_awareness m"
    using m1 m2 by (simp add: new_msgs_append[OF p1 p2] ball_Un)
  ultimately show ?thesis by (simp add: R_only_aw_def)
qed

lemma new_msgs_transmit:
  "new_msgs st (transmit c m st) x = (if x = c then [m] else [])"
  by (simp add: new_msgs_def)

lemma only_aw_rel:
  fixes st :: "'a relay"
  shows "c \<noteq> x \<or> is_awareness m \<Longrightarrow> R_only_aw x d st (send d c m st)"
    and "R_only_aw x d st (closeConn d c st)"
    and "R_only_aw x d st (awarenessChangeHandler d ch orig st)"
    and "(\<forall>c\<in>set cs. excl \<noteq> Some c \<longrightarrow> c \<noteq> x \<or> is_awareness m) \<Longrightarrow>
           R_only_aw x d st (forEachSend d cs excl m st)"
proof -
  have 1: "\<And>d (st :: 'a relay). R_only_aw x d st st" by (simp add: R_only_aw_def)
  have 2: "\<And>d (a :: 'a relay) b c. R_only_aw x d a b \<Longrightarrow> R_only_aw x d b c \<Longrightarrow> R_only_aw x d a c"
    by (rule R_only_aw_trans)
  have 3: "\<And>c es. c \<noteq> x \<or> is_awareness (MsgAwareness es)" by simp
  have 4: "\<And>d c m (st :: 'a relay). healthy st c \<Longrightarrow> c \<noteq> x \<or> is_awareness m \<Longrightarrow>
             R_only_aw x d st (transmit c m st)"
    by (auto simp: R_only_aw_def new_msgs_transmit)
  have 5: "\<And>d c (st :: 'a relay). \<not> registered st d c \<Longrightarrow> \<not> healthy st c \<or> True \<Longrightarrow>
             R_only_aw x d st (upd_transport c close_transport st)"
    by (simp add: R_only_aw_def new_msgs_def close_transport_def)
  have 6: "\<And>d c (st :: 'a relay). registered st d c \<Longrightarrow> \<not> healthy st c \<or> True \<Longrightarrow>
             R_only_aw x d st (fst (deregister d c st))"
    by (simp add: R_only_aw_def new_msgs_def)
  have 7: "\<And>d ch (orig :: origin) (st :: 'a relay). True \<Longrightarrow>
             R_only_aw x d st (upd_doc d (track_controlled ch orig) st)"
    by (simp add: R_only_aw_def new_msgs_def)
  have 8: "\<And>d (st :: 'a relay). R_only_aw x d st (destroyIfEmpty d st)"
    by (simp add: R_only_aw_def new_msgs_def)
  note ob = 1 2 3 4 5 6 TrueI 7 8
  note r = mutual_relG[of "R_only_aw x" "\<lambda>c m. c \<noteq> x \<or> is_awareness m" "\<lambda>c. True"
      "\<lambda>orig. True"]
  show "R_only_aw x d st (send d c m st)" if "c \<noteq> x \<or> is_awareness m"
  proof (rule r(1))
    show "c \<noteq> x \<or> is_awareness m" by (fact that)
  qed (fact ob)+
  show "R_only_aw x d st (closeConn d c st)"
    by (rule r(2); (fact ob | simp))
  show "R_only_aw x d st (awarenessChangeHandler d ch orig st)"
    by (rule r(3); (fact ob | simp))
  show "R_only_aw x d st (forEachSend d cs excl m st)"
    if "\<forall>c\<in>set cs. excl \<noteq> Some c \<longrightarrow> c \<noteq> x \<or> is_awareness m"
  proof (rule r(4))
    show "\<forall>c\<in>set cs. excl \<noteq> Some c \<longrightarrow> c \<noteq> x \<or> is_awareness m" by (fact that)
  qed (fact ob)+
qed

lemma healthy_upd_transport_other:
  "x \<noteq> c \<Longrightarrow> healthy (upd_transport c f st) x = healthy st x"
  by (simp add: healthy_def)

lemma healthy_deregister [simp]: "healthy (fst (deregister d c st)) x = healthy st x"
  by (simp add: healthy_def)

lemma healthy_destroyIfEmpty [simp]: "healthy (destroyIfEmpty d st) x = healthy st x"
  by (simp add: healthy_def)

lemma registered_track [simp]:
  "registered (upd_doc d (track_controlled ch orig) st) d' x = registered st d' x"
  using conns_of_track[of d ch orig st d'] by (simp add: registered_iff flip: set_map)

lemma kept_rel:
  fixes st :: "'a relay"
  shows "R_kept x d st (send d c m st)"
    and "c \<noteq> x \<Longrightarrow> R_kept x d st (closeConn d c st)"
    and "R_kept x d st (awarenessChangeHandler d ch orig st)"
    and "R_kept x d st (forEachSend d cs excl m st)"
proof -
  have 1: "\<And>d (st :: 'a relay). R_kept x d st st" by (simp add: R_kept_def)
  have 2: "\<And>d (a :: 'a relay) b c. R_kept x d a b \<Longrightarrow> R_kept x d b c \<Longrightarrow> R_kept x d a c"
    by (simp add: R_kept_def)
  have 3: "\<And>(c::conn) es. True" by simp
  have 4: "\<And>d c m (st :: 'a relay). healthy st c \<Longrightarrow> True \<Longrightarrow> R_kept x d st (transmit c m st)"
    by (simp add: R_kept_def)
  have 5: "\<And>d c (st :: 'a relay). \<not> registered st d c \<Longrightarrow> \<not> healthy st c \<or> c \<noteq> x \<Longrightarrow>
             R_kept x d st (upd_transport c close_transport st)"
  proof -
    fix d c and st :: "'a relay"
    assume n: "\<not> registered st d c"
    show "R_kept x d st (upd_transport c close_transport st)"
    proof (cases "x = c")
      case True
      then show ?thesis using n by (simp add: R_kept_def)
    next
      case False
      then show ?thesis by (simp add: R_kept_def healthy_upd_transport_other)
    qed
  qed
  have 6: "\<And>d c (st :: 'a relay). registered st d c \<Longrightarrow> \<not> healthy st c \<or> c \<noteq> x \<Longrightarrow>
             R_kept x d st (fst (deregister d c st))"
    by (auto simp: R_kept_def registered_deregister)
  have 7: "\<And>d ch (orig :: origin) (st :: 'a relay). True \<Longrightarrow>
             R_kept x d st (upd_doc d (track_controlled ch orig) st)"
    by (simp add: R_kept_def)
  have 8: "\<And>d (st :: 'a relay). R_kept x d st (destroyIfEmpty d st)"
    by (simp add: R_kept_def)
  note ob = 1 2 3 4 5 6 TrueI 7 8
  note r = mutual_relG[of "R_kept x" "\<lambda>c m. True" "\<lambda>c. c \<noteq> x" "\<lambda>orig. True"]
  show "R_kept x d st (send d c m st)"
    by (rule r(1); (fact ob | simp))
  show "R_kept x d st (closeConn d c st)" if "c \<noteq> x"
  proof (rule r(2))
    show "\<not> healthy st c \<or> c \<noteq> x" using that by simp
  qed (fact ob)+
  show "R_kept x d st (awarenessChangeHandler d ch orig st)"
    by (rule r(3); (fact ob | simp))
  show "R_kept x d st (forEachSend d cs excl m st)"
    by (rule r(4); (fact ob | simp))
qed

subsection \<open>What \<^verbatim>\<open>closeConn\<close> removes\<close>

lemma present_upd_transport [simp]: "present (upd_transport c f st) d i = present st d i"
  by (simp add: present_def)

lemma present_destroyIfEmpty: "present (destroyIfEmpty d st) d' i \<Longrightarrow> present st d' i"
  by (auto simp: present_def dest: has_state_destroy split: option.splits if_splits)

lemma present_deregister:
  "map_of (conns_of st d) c = Some ids \<Longrightarrow>
     present (fst (deregister d c st)) d i \<longleftrightarrow> present st d i \<and> i \<notin> set ids"
  by (auto simp: present_def heap_deregister conns_of_def removeAwarenessStates_has_state
      split: option.splits)

lemma R_table_present: "R_table d st st' \<Longrightarrow> present st' d i \<Longrightarrow> present st d i"
  by (simp add: R_table_def)

lemma present_after_removal:
  assumes "map_of (conns_of st d) c = Some ids" and "present (after_removal d c st) d i"
  shows "present st d i \<and> i \<notin> set ids"
proof -
  have "present (fst (deregister d c st)) d i"
    using assms(2) R_table_present[OF table_rel(3)]
    by (auto simp: after_removal_def split: if_splits)
  then show ?thesis using present_deregister[OF assms(1)] by simp
qed

lemma present_closeConn_controlled:
  assumes "map_of (conns_of st d) c = Some ids" and "i \<in> set ids"
  shows "\<not> present (closeConn d c st) d i"
proof -
  have r: "registered st d c" using assms(1) by (simp add: registered_def)
  show ?thesis
    using present_after_removal[OF assms(1)] assms(2)
    by (auto simp: closeConn_registered[OF r] dest: present_destroyIfEmpty)
qed

lemma closeConn_empties_destroys:
  assumes r: "registered st d c" and e: "conns_of (closeConn d c st) d = []"
  shows "destroyed_of (closeConn d c st) d \<and>
         (\<forall>n. name_of st d = Some n \<longrightarrow> docs (closeConn d c st) n = None)"
proof -
  let ?ar = "after_removal d c st"
  have f: "R_frame d st (closeConn d c st)" by (rule frame_rel)
  obtain doc where doc: "heap st d = Some doc"
    using r by (auto simp: registered_def conns_of_def split: option.splits)
  have n: "map_option name (heap (closeConn d c st) d) = Some (name doc)"
    using f doc by (simp add: R_frame_def)
  then obtain doc' where doc': "heap ?ar d = Some doc'"
    by (auto simp: closeConn_registered[OF r])
  have c: "conns doc' = []"
    using e doc' by (simp add: closeConn_registered[OF r] conns_of_def split: if_splits)
  have "name doc' = name doc"
    using n doc' c by (simp add: closeConn_registered[OF r])
  then show ?thesis
    using doc doc' c by (simp add: closeConn_registered[OF r] destroyed_of_def name_of_def)
qed

lemma nonopen_outbox_untouched:
  "readyState (transports st x) \<noteq> OPEN \<Longrightarrow>
     sent (transports (send d c m st) x) = sent (transports st x)"
  "readyState (transports st x) \<noteq> OPEN \<Longrightarrow>
     sent (transports (closeConn d c st) x) = sent (transports st x)"
  using tr_rel(1)[of d st c m] tr_rel(2)[of d st c] by (simp_all add: R_tr_def tr_ok_def)

subsection \<open>The handlers of the sync sub-protocol\<close>

lemma onMessage_step1:
  assumes "room (transports st ws) = Some d" "heap st d = Some doc"
    "asSync p = Some (SyncStep1 sv)" "encodeStateAsUpdate E (ydoc doc) sv = Some u"
  shows "onMessage E ws (Frame messageSync p) st = send d ws (MsgSync (SyncStep2 u)) st"
  using assms by (simp add: onMessage_def handleSync_def)

lemma R_only_aw_new: "R_only_aw x d st st' \<Longrightarrow> \<forall>m\<in>set (new_msgs st st' x). is_awareness m"
  by (simp add: R_only_aw_def)

subsection \<open>What a broadcast delivers\<close>

lemma R_tr_silent: "R_tr d st st' \<Longrightarrow> \<not> healthy st x \<Longrightarrow> new_msgs st st' x = []"
  unfolding R_tr_def healthy_def tr_ok_def new_msgs_def by (erule allE[of _ x]) auto

lemma R_only_aw_prefix:
  "R_only_aw x d st st' \<Longrightarrow> prefix (sent (transports st x)) (sent (transports st' x))"
  by (simp add: R_only_aw_def)

lemma R_kept_D: "R_kept x d st st' \<Longrightarrow> registered st d x \<Longrightarrow> healthy st x \<Longrightarrow>
   registered st' d x \<and> healthy st' x"
  by (simp add: R_kept_def)

lemma forEachSend_skips:
  "x \<notin> set cs \<Longrightarrow> R_only_aw x d st (forEachSend d cs excl m st)"
  by (rule only_aw_rel(4)) auto

lemma forEachSend_delivers:
  assumes m: "\<not> is_awareness m" and e: "excl \<noteq> Some x"
  shows "distinct cs \<Longrightarrow> x \<in> set cs \<Longrightarrow> registered st d x \<Longrightarrow> healthy st x \<Longrightarrow>
     prefix (sent (transports st x)) (sent (transports (forEachSend d cs excl m st) x)) \<and>
     filter (\<lambda>m. \<not> is_awareness m) (new_msgs st (forEachSend d cs excl m st) x) = [m]"
proof (induction cs arbitrary: st)
  case Nil
  then show ?case by simp
next
  case (Cons c cs)
  show ?case
  proof (cases "c = x")
    case True
    let ?st1 = "transmit x m st"
    let ?st' = "forEachSend d cs excl m ?st1"
    have eq: "forEachSend d (c # cs) excl m st = ?st'"
      using True Cons.prems e by (simp add: forEachSend.simps send_healthy)
    have nx: "x \<notin> set cs" using Cons.prems True by simp
    have r: "R_only_aw x d ?st1 ?st'" by (rule forEachSend_skips[OF nx])
    have p1: "prefix (sent (transports st x)) (sent (transports ?st1 x))" by simp
    have p2: "prefix (sent (transports ?st1 x)) (sent (transports ?st' x))"
      by (rule R_only_aw_prefix[OF r])
    have n: "new_msgs st ?st' x = [m] @ new_msgs ?st1 ?st' x"
      using new_msgs_append[OF p1 p2] by (simp add: new_msgs_transmit)
    have f: "filter (\<lambda>m. \<not> is_awareness m) (new_msgs ?st1 ?st' x) = []"
      using R_only_aw_new[OF r] by (simp add: filter_empty_conv)
    show ?thesis unfolding eq using n f m prefix_order.trans[OF p1 p2] by simp
  next
    case False
    define st1 where "st1 = (if registered st d c \<and> excl \<noteq> Some c then send d c m st else st)"
    let ?st' = "forEachSend d cs excl m st1"
    have eq: "forEachSend d (c # cs) excl m st = ?st'"
      by (simp add: forEachSend.simps st1_def)
    have r: "R_only_aw x d st st1"
      using False only_aw_rel(1)[of c x m d st] by (simp add: st1_def R_only_aw_def)
    have k: "registered st1 d x \<and> healthy st1 x"
      using R_kept_D[OF kept_rel(1)[of x d st c m]] Cons.prems by (simp add: st1_def)
    have ih: "prefix (sent (transports st1 x)) (sent (transports ?st' x)) \<and>
       filter (\<lambda>m. \<not> is_awareness m) (new_msgs st1 ?st' x) = [m]"
      using Cons.IH[of st1] Cons.prems False k by simp
    have p1: "prefix (sent (transports st x)) (sent (transports st1 x))"
      by (rule R_only_aw_prefix[OF r])
    have f: "filter (\<lambda>m. \<not> is_awareness m) (new_msgs st st1 x) = []"
      using R_only_aw_new[OF r] by (simp add: filter_empty_conv)
    show ?thesis unfolding eq
      using new_msgs_append[OF p1 conjunct1[OF ih]] f ih prefix_order.trans[OF p1 conjunct1[OF ih]]
      by simp
  qed
qed

lemma forEachSend_closes_unhealthy:
  "x \<in> set cs \<Longrightarrow> excl \<noteq> Some x \<Longrightarrow> \<not> healthy st x \<Longrightarrow>
     \<not> registered (forEachSend d cs excl m st) d x"
proof (induction cs arbitrary: st)
  case Nil
  then show ?case by simp
next
  case (Cons c cs)
  define st1 where "st1 = (if registered st d c \<and> excl \<noteq> Some c then send d c m st else st)"
  have eq: "forEachSend d (c # cs) excl m st = forEachSend d cs excl m st1"
    by (simp add: forEachSend.simps st1_def)
  have u: "\<not> healthy st1 x"
    using R_tr_unhealthy[OF tr_rel(1)[of d st c m]] Cons.prems(3) by (simp add: st1_def)
  show ?case
  proof (cases "c = x")
    case True
    have "\<not> registered st1 d x"
      using True Cons.prems not_registered_after_closeConn[of d x st]
      by (auto simp: st1_def send_unhealthy)
    then show ?thesis unfolding eq using registered_mono(4) by blast
  next
    case False
    then show ?thesis unfolding eq using Cons.IH[of st1] Cons.prems u by simp
  qed
qed

lemma onMessage_update:
  assumes "room (transports st ws) = Some d" "heap st d = Some doc" "\<not> destroyed doc"
    "asSync p = Some sm" "sm = SyncUpdate u \<or> sm = SyncStep2 u"
    "applyUpdate E (ydoc doc) u = (y, Some upd, r)"
  shows "onMessage E ws (Frame messageSync p) st =
           (let st' = forEachSend d (map fst (conns doc)) (Some ws) (MsgSync (SyncUpdate upd))
                        (st\<lparr>heap := (heap st)(d \<mapsto> doc\<lparr>ydoc := y\<rparr>)\<rparr>)
            in if r then st'\<lparr>errlog := errlog st' @ [CorruptUpdate]\<rparr> else st')"
  using assms
  by (auto simp: onMessage_def handleSync_def readUpdate_def docUpdateHandler_def conns_of_def
      Let_def)

section \<open>The invariant of the executions\<close>

subsection \<open>What a call does to the room registry\<close>

lemma R_strong_refl: "R_strong d st st"
  by (simp add: R_strong_def)

lemma R_strong_trans:
  assumes ab: "R_strong d a b" and bc: "R_strong d b c"
    and sb: "R_docs d a b" and sc: "R_docs d b c"
  shows "R_strong d a c"
proof -
  have nb: "name_of b d = name_of a d"
    and eb: "conns_of a d = [] \<longrightarrow> conns_of b d = []"
    and ec: "conns_of b d = [] \<longrightarrow> conns_of c d = []"
    and dc: "destroyed_of b d \<longrightarrow> destroyed_of c d"
    using sb sc by (simp_all add: R_docs_def)
  show ?thesis
  proof (cases "docs b = docs a \<and> (conns_of b d = [] \<longrightarrow> conns_of a d = []) \<and>
      (destroyed_of b d \<longrightarrow> destroyed_of a d)")
    case True
    note b1 = this
    show ?thesis
    proof (cases "docs c = docs b \<and> (conns_of c d = [] \<longrightarrow> conns_of b d = []) \<and>
      (destroyed_of c d \<longrightarrow> destroyed_of b d)")
      case True
      then show ?thesis using b1 by (simp add: R_strong_def)
    next
      case False
      then have "conns_of b d \<noteq> [] \<and> conns_of c d = [] \<and> destroyed_of c d \<and>
        (\<exists>n. name_of b d = Some n \<and> docs c = (docs b)(n := None))"
        using bc unfolding R_strong_def by blast
      then show ?thesis using b1 nb eb unfolding R_strong_def by metis
    qed
  next
    case False
    then have b2: "conns_of a d \<noteq> []" "conns_of b d = []" "destroyed_of b d"
      "\<exists>n. name_of a d = Some n \<and> docs b = (docs a)(n := None)"
      using ab by (auto simp: R_strong_def)
    have "docs c = docs b"
      using bc b2(2) by (auto simp: R_strong_def)
    then show ?thesis using b2 ec dc by (simp add: R_strong_def)
  qed
qed

lemma R_docs_after_removal: "R_docs d (fst (deregister d c st)) (after_removal d c st)"
  by (simp add: after_removal_def docs_rel(3) R_docs_refl)

lemma deregister_keeps [simp]:
  "destroyed_of (fst (deregister d c st)) d' = destroyed_of st d'"
  "name_of (fst (deregister d c st)) d' = name_of st d'"
  by (auto simp: destroyed_of_def name_of_def heap_deregister split: option.splits)

lemma upd_transport_keeps [simp]:
  "destroyed_of (upd_transport c f st) d = destroyed_of st d"
  "name_of (upd_transport c f st) d = name_of st d"
  by (simp_all add: destroyed_of_def name_of_def)

lemma transmit_keeps [simp]:
  "destroyed_of (transmit c m st) d = destroyed_of st d"
  "name_of (transmit c m st) d = name_of st d"
  by (simp_all add: destroyed_of_def name_of_def)

lemma strong_closeConn: "R_strong d st (closeConn d c st)"
proof (cases "registered st d c")
  case False
  then show ?thesis by (simp add: closeConn_unregistered R_strong_def)
next
  case True
  let ?st1 = "fst (deregister d c st)"
  let ?ar = "after_removal d c st"
  have ne: "conns_of st d \<noteq> []" using True by (auto simp: registered_iff)
  obtain doc where doc: "heap st d = Some doc"
    using True by (auto simp: registered_def conns_of_def split: option.splits)
  have rd: "R_docs d ?st1 ?ar" by (rule R_docs_after_removal)
  have "name_of ?ar d = name_of st d"
    using rd by (simp add: R_docs_def)
  then have nm: "name_of ?ar d = Some (name doc)"
    using doc by (simp add: name_of_def)
  then obtain doc' where doc': "heap ?ar d = Some doc'" "name doc' = name doc"
    by (auto simp: name_of_def)
  show ?thesis
  proof (cases "conns_of ?ar d = []")
    case True
    have c': "conns doc' = []" using True doc' by (simp add: conns_of_def)
    have "name_of st d = Some (name doc)" using doc by (simp add: name_of_def)
    then have "docs ?ar = docs st \<or> docs ?ar = (docs st)(name doc := None)"
      using rd by (auto simp: R_docs_def)
    then have "docs (closeConn d c st) = (docs st)(name doc := None)"
      using doc' c' by (auto simp: closeConn_registered[OF \<open>registered st d c\<close>])
    moreover have "destroyed_of (closeConn d c st) d" "conns_of (closeConn d c st) d = []"
      using doc' c' True
      by (simp_all add: closeConn_registered[OF \<open>registered st d c\<close>] destroyed_of_def)
    ultimately show ?thesis using ne doc by (simp add: R_strong_def name_of_def)
  next
    case False
    have c': "conns doc' \<noteq> []" using False doc' by (simp add: conns_of_def)
    have "docs ?ar = docs st" "destroyed_of ?ar d \<longrightarrow> destroyed_of st d"
      using rd False by (auto simp: R_docs_def)
    then show ?thesis
      using doc' c' False
      by (simp add: closeConn_registered[OF \<open>registered st d c\<close>] R_strong_def destroyed_of_def)
  qed
qed

lemma strong_send: "R_strong d st (send d c m st)"
proof (cases "healthy st c")
  case True
  then show ?thesis by (simp add: send_healthy R_strong_def)
next
  case False
  show ?thesis unfolding send_unhealthy[OF False] by (rule strong_closeConn)
qed

lemma strong_forEachSend: "R_strong d st (forEachSend d cs excl m st)"
proof (induction cs arbitrary: st)
  case Nil
  then show ?case by (simp add: forEachSend.simps R_strong_refl)
next
  case (Cons c cs)
  define st1 where "st1 = (if registered st d c \<and> excl \<noteq> Some c then send d c m st else st)"
  have eq: "forEachSend d (c # cs) excl m st = forEachSend d cs excl m st1"
    by (simp add: forEachSend.simps st1_def)
  have 1: "R_strong d st st1" by (simp add: st1_def strong_send R_strong_refl)
  have 2: "R_docs d st st1" by (simp add: st1_def docs_rel(1) R_docs_refl)
  show ?case unfolding eq
    by (rule R_strong_trans[OF 1 Cons.IH 2 docs_rel(4)])
qed

lemma track_keeps [simp]:
  "destroyed_of (upd_doc d (track_controlled ch orig) st) d' = destroyed_of st d'"
  "name_of (upd_doc d (track_controlled ch orig) st) d' = name_of st d'"
  "conns_of (upd_doc d (track_controlled ch orig) st) d' = [] \<longleftrightarrow> conns_of st d' = []"
  by (auto simp: destroyed_of_def name_of_def conns_of_def option.map_comp comp_def
      split: option.splits)

lemma strong_handler: "R_strong d st (awarenessChangeHandler d ch orig st)"
proof -
  let ?st1 = "upd_doc d (track_controlled ch orig) st"
  have 1: "R_strong d st ?st1" by (simp add: R_strong_def)
  have 2: "R_docs d st ?st1" by (rule R_docs_track)
  show ?thesis
    unfolding awarenessChangeHandler.simps Let_def
    by (rule R_strong_trans[OF 1 strong_forEachSend 2 docs_rel(4)])
qed

subsection \<open>The invariant is kept\<close>

lemma inv_step:
  assumes i: "relay_inv st" and f: "R_frame d st st'" and c: "R_conns d st st'"
    and s: "R_strong d st st'"
  shows "relay_inv st'"
proof -
  have i1: "\<And>n e. docs st n = Some e \<Longrightarrow>
      \<exists>doc. heap st e = Some doc \<and> name doc = n \<and> conns doc \<noteq> [] \<and> \<not> destroyed doc"
    and i2: "\<And>e doc. heap st e = Some doc \<Longrightarrow>
        (conns doc \<noteq> [] \<longrightarrow> docs st (name doc) = Some e) \<and>
        (conns doc = [] \<longrightarrow> destroyed doc) \<and>
        distinct (map fst (conns doc)) \<and> e < nextDoc st"
    using i unfolding relay_inv_def by blast+
  have nx: "nextDoc st' = nextDoc st"
    and oth: "\<And>e. e \<noteq> d \<Longrightarrow> heap st' e = heap st e"
    and nm: "map_option name (heap st' d) = map_option name (heap st d)"
    and dm: "destroyed_of st d \<longrightarrow> destroyed_of st' d"
    using f unfolding R_frame_def by blast+
  have ks: "fst ` set (conns_of st' d) \<subseteq> fst ` set (conns_of st d)"
    and dk: "distinct (map fst (conns_of st d)) \<longrightarrow> distinct (map fst (conns_of st' d))"
    using c unfolding R_conns_def by blast+
  have sub: "docs st' n = Some e \<Longrightarrow> docs st n = Some e" for n e
    using s unfolding R_strong_def by (auto split: if_splits)
  have same: "\<exists>doc. heap st d = Some doc \<and> name doc = name doc' \<and>
        (conns doc' \<noteq> [] \<longrightarrow> conns doc \<noteq> []) \<and>
        (distinct (map fst (conns doc)) \<longrightarrow> distinct (map fst (conns doc'))) \<and>
        (destroyed doc \<longrightarrow> destroyed doc')"
    if hd: "heap st' d = Some doc'" for doc'
  proof -
    obtain doc where doc: "heap st d = Some doc" "name doc = name doc'"
      using nm hd by (cases "heap st d") auto
    have "conns doc' \<noteq> [] \<longrightarrow> conns doc \<noteq> []"
      using ks doc hd by (auto simp: conns_of_def)
    moreover have "distinct (map fst (conns doc)) \<longrightarrow> distinct (map fst (conns doc'))"
      using dk doc hd by (simp add: conns_of_def)
    moreover have "destroyed doc \<longrightarrow> destroyed doc'"
      using dm doc hd by (simp add: destroyed_of_def)
    ultimately show ?thesis using doc by blast
  qed
  have A: "\<exists>doc. heap st' e = Some doc \<and> name doc = n \<and> conns doc \<noteq> [] \<and> \<not> destroyed doc"
    if h: "docs st' n = Some e" for n e
  proof -
    obtain doc where doc: "heap st e = Some doc" "name doc = n" "conns doc \<noteq> []"
      "\<not> destroyed doc"
      using i1[OF sub[OF h]] by blast
    show ?thesis
    proof (cases "e = d")
      case False
      then show ?thesis using doc oth by simp
    next
      case True
      have nn: "name_of st d = Some n" using doc True by (simp add: name_of_def)
      have "docs st' \<noteq> (docs st)(n := None)" using h by auto
      then have k: "docs st' = docs st" "conns_of st' d = [] \<longrightarrow> conns_of st d = []"
        "destroyed_of st' d \<longrightarrow> destroyed_of st d"
        using s nn unfolding R_strong_def by auto
      obtain doc' where doc': "heap st' d = Some doc'" "name doc' = n"
        using nm doc True by (cases "heap st' d") auto
      have "conns doc' \<noteq> []" using k(2) doc doc' True by (auto simp: conns_of_def)
      moreover have "\<not> destroyed doc'"
        using k(3) doc doc' True by (auto simp: destroyed_of_def)
      ultimately show ?thesis using doc' True by simp
    qed
  qed
  have B: "(conns doc' \<noteq> [] \<longrightarrow> docs st' (name doc') = Some e) \<and>
        (conns doc' = [] \<longrightarrow> destroyed doc') \<and>
        distinct (map fst (conns doc')) \<and> e < nextDoc st'"
    if h: "heap st' e = Some doc'" for e doc'
  proof (cases "e = d")
    case False
    have hs: "heap st e = Some doc'" using h oth[OF False] by simp
    note j = i2[OF hs]
    have "docs st' (name doc') = Some e" if ne: "conns doc' \<noteq> []"
    proof -
      have a: "docs st (name doc') = Some e" using j ne by simp
      show ?thesis
      proof (cases "docs st' = docs st")
        case True
        then show ?thesis using a by simp
      next
        case False
        then obtain n where n: "conns_of st d \<noteq> []" "name_of st d = Some n"
          "docs st' = (docs st)(n := None)"
          using s unfolding R_strong_def by blast
        obtain doc where doc: "heap st d = Some doc" "name doc = n" "conns doc \<noteq> []"
          using n by (auto simp: name_of_def conns_of_def)
        have "docs st n = Some d" using i2[OF doc(1)] doc by simp
        then have "name doc' \<noteq> n" using a \<open>e \<noteq> d\<close> by auto
        then show ?thesis using n(3) a by simp
      qed
    qed
    then show ?thesis using j nx by simp
  next
    case True
    obtain doc where doc: "heap st d = Some doc" "name doc = name doc'"
        "conns doc' \<noteq> [] \<longrightarrow> conns doc \<noteq> []"
        "distinct (map fst (conns doc)) \<longrightarrow> distinct (map fst (conns doc'))"
        "destroyed doc \<longrightarrow> destroyed doc'"
      using same h True by blast
    note j = i2[OF doc(1)]
    have 1: "docs st' (name doc') = Some e" if ne: "conns doc' \<noteq> []"
    proof -
      have "conns_of st' d \<noteq> []" using ne h True by (simp add: conns_of_def)
      then have "docs st' = docs st" using s unfolding R_strong_def by blast
      then show ?thesis using j doc ne True by simp
    qed
    have 2: "destroyed doc'" if e: "conns doc' = []"
    proof (cases "conns doc = []")
      case True
      then show ?thesis using j doc by simp
    next
      case False
      have "conns_of st' d = []" "conns_of st d \<noteq> []"
        using e h \<open>e = d\<close> False doc by (simp_all add: conns_of_def)
      then have "destroyed_of st' d" using s unfolding R_strong_def by blast
      then show ?thesis using h \<open>e = d\<close> by (simp add: destroyed_of_def)
    qed
    show ?thesis using 1 2 j doc nx True by simp
  qed
  show ?thesis unfolding relay_inv_def using A B by blast
qed

lemma inv_closeConn: "relay_inv st \<Longrightarrow> relay_inv (closeConn d c st)"
  by (erule inv_step[OF _ frame_rel(2) conns_rel(2) strong_closeConn])

lemma inv_send: "relay_inv st \<Longrightarrow> relay_inv (send d c m st)"
  by (erule inv_step[OF _ frame_rel(1) conns_rel(1) strong_send])

lemma inv_handler: "relay_inv st \<Longrightarrow> relay_inv (awarenessChangeHandler d ch orig st)"
  by (erule inv_step[OF _ frame_rel(3) conns_rel(3) strong_handler])

lemma inv_forEachSend: "relay_inv st \<Longrightarrow> relay_inv (forEachSend d cs excl m st)"
  by (erule inv_step[OF _ frame_rel(4) conns_rel(4) strong_forEachSend])

lemma inv_upd_transport [simp]: "relay_inv (upd_transport c f st) = relay_inv st"
  by (simp add: relay_inv_def)

lemma inv_errlog [simp]: "relay_inv (st\<lparr>errlog := l\<rparr>) = relay_inv st"
  by (simp add: relay_inv_def)

lemma inv_heap_update:
  assumes i: "relay_inv st" and h: "heap st d = Some doc" and n: "name doc' = name doc"
    and c: "conns doc' = conns doc" and ds: "destroyed doc' = destroyed doc"
  shows "relay_inv (st\<lparr>heap := (heap st)(d \<mapsto> doc')\<rparr>)"
proof -
  have i1: "\<And>n e. docs st n = Some e \<Longrightarrow>
      \<exists>doc. heap st e = Some doc \<and> name doc = n \<and> conns doc \<noteq> [] \<and> \<not> destroyed doc"
    and i2: "\<And>e doc. heap st e = Some doc \<Longrightarrow>
        (conns doc \<noteq> [] \<longrightarrow> docs st (name doc) = Some e) \<and>
        (conns doc = [] \<longrightarrow> destroyed doc) \<and>
        distinct (map fst (conns doc)) \<and> e < nextDoc st"
    using i unfolding relay_inv_def by blast+
  have A: "\<exists>x. ((heap st)(d \<mapsto> doc')) e = Some x \<and> name x = m \<and> conns x \<noteq> [] \<and> \<not> destroyed x"
    if "docs st m = Some e" for m e
  proof (cases "e = d")
    case True
    then show ?thesis using i1[OF that] h n c ds by simp
  next
    case False
    then show ?thesis using i1[OF that] by simp
  qed
  have B: "(conns x \<noteq> [] \<longrightarrow> docs st (name x) = Some e) \<and>
        (conns x = [] \<longrightarrow> destroyed x) \<and>
        distinct (map fst (conns x)) \<and> e < nextDoc st"
    if "((heap st)(d \<mapsto> doc')) e = Some x" for e x
  proof (cases "e = d")
    case True
    then show ?thesis using i2[OF h] that n c ds by simp
  next
    case False
    then show ?thesis using i2[of e x] that by simp
  qed
  show ?thesis unfolding relay_inv_def using A B by simp
qed

lemma inv_readUpdate: "relay_inv st \<Longrightarrow> relay_inv (fst (readUpdate E d ws u st))"
  by (auto simp: readUpdate_def docUpdateHandler_def Let_def
      intro!: inv_forEachSend inv_heap_update split: option.splits)

lemma inv_handleSync: "relay_inv st \<Longrightarrow> relay_inv (fst (handleSync E d ws p st))"
  by (auto simp: handleSync_def intro: inv_readUpdate inv_send
      split: option.splits sync_msg.splits)

lemma inv_handleAwareness: "relay_inv st \<Longrightarrow> relay_inv (fst (handleAwareness d ws p st))"
  by (auto simp: handleAwareness_def Let_def
      intro!: inv_forEachSend inv_handler inv_heap_update split: option.splits aw_update.splits)

lemma inv_handleFrame: "relay_inv st \<Longrightarrow> relay_inv (fst (handleFrame E d ws fr st))"
  by (cases fr) (auto simp: handleStats_def intro: inv_handleSync inv_handleAwareness inv_send)

lemma inv_onMessage:
  assumes i: "relay_inv st"
  shows "relay_inv (onMessage E ws fr st)"
proof (cases "room (transports st ws)")
  case None
  then show ?thesis using i by (simp add: onMessage_def)
next
  case (Some d)
  obtain st' e where h: "handleFrame E d ws fr st = (st', e)" by (cases "handleFrame E d ws fr st")
  have "relay_inv st'" using inv_handleFrame[OF i, of E d ws fr] h by simp
  then show ?thesis using Some h by (simp add: onMessage_def split: option.splits)
qed

lemma inv_onClose: "relay_inv st \<Longrightarrow> relay_inv (onClose ws st)"
  by (auto simp: onClose_def intro: inv_closeConn split: option.splits)

lemma inv_init: "relay_inv init"
  by (simp add: relay_inv_def init_def)

lemma inv_conns_update:
  assumes i: "relay_inv st" and h: "heap st d = Some doc" and n: "name doc' = name doc"
    and c: "conns doc \<noteq> []" "conns doc' \<noteq> []" "distinct (map fst (conns doc'))"
    and ds: "destroyed doc' = destroyed doc"
  shows "relay_inv (st\<lparr>heap := (heap st)(d \<mapsto> doc')\<rparr>)"
proof -
  have i1: "\<And>n e. docs st n = Some e \<Longrightarrow>
      \<exists>doc. heap st e = Some doc \<and> name doc = n \<and> conns doc \<noteq> [] \<and> \<not> destroyed doc"
    and i2: "\<And>e doc. heap st e = Some doc \<Longrightarrow>
        (conns doc \<noteq> [] \<longrightarrow> docs st (name doc) = Some e) \<and>
        (conns doc = [] \<longrightarrow> destroyed doc) \<and>
        distinct (map fst (conns doc)) \<and> e < nextDoc st"
    using i unfolding relay_inv_def by blast+
  have A: "\<exists>x. ((heap st)(d \<mapsto> doc')) e = Some x \<and> name x = m \<and> conns x \<noteq> [] \<and> \<not> destroyed x"
    if "docs st m = Some e" for m e
  proof (cases "e = d")
    case True
    then show ?thesis using i1[OF that] h n c ds by simp
  next
    case False
    then show ?thesis using i1[OF that] by simp
  qed
  have B: "(conns x \<noteq> [] \<longrightarrow> docs st (name x) = Some e) \<and>
        (conns x = [] \<longrightarrow> destroyed x) \<and>
        distinct (map fst (conns x)) \<and> e < nextDoc st"
    if "((heap st)(d \<mapsto> doc')) e = Some x" for e x
  proof (cases "e = d")
    case True
    then show ?thesis using i2[OF h] that n c ds by simp
  next
    case False
    then show ?thesis using i2[of e x] that by simp
  qed
  show ?thesis unfolding relay_inv_def using A B by simp
qed

lemma inv_new_room:
  assumes i: "relay_inv st" and f: "docs st n = None"
    and nd: "name doc = n" "conns doc \<noteq> []" "distinct (map fst (conns doc))" "\<not> destroyed doc"
  shows "relay_inv (st\<lparr>docs := (docs st)(n \<mapsto> nextDoc st),
                        nextDoc := Suc (nextDoc st),
                        heap := (heap st)(nextDoc st \<mapsto> doc)\<rparr>)"
proof -
  have i1: "\<And>n e. docs st n = Some e \<Longrightarrow>
      \<exists>doc. heap st e = Some doc \<and> name doc = n \<and> conns doc \<noteq> [] \<and> \<not> destroyed doc"
    and i2: "\<And>e doc. heap st e = Some doc \<Longrightarrow>
        (conns doc \<noteq> [] \<longrightarrow> docs st (name doc) = Some e) \<and>
        (conns doc = [] \<longrightarrow> destroyed doc) \<and>
        distinct (map fst (conns doc)) \<and> e < nextDoc st"
    using i unfolding relay_inv_def by blast+
  let ?d = "nextDoc st"
  have A: "\<exists>x. ((heap st)(?d \<mapsto> doc)) e = Some x \<and> name x = m \<and> conns x \<noteq> [] \<and> \<not> destroyed x"
    if "((docs st)(n \<mapsto> ?d)) m = Some e" for m e
  proof (cases "m = n")
    case True
    then show ?thesis using that nd by simp
  next
    case False
    then have d: "docs st m = Some e" using that by simp
    then obtain x where x: "heap st e = Some x" "name x = m" "conns x \<noteq> []" "\<not> destroyed x"
      using i1 by blast
    have "e \<noteq> ?d" using i2[OF x(1)] by simp
    then show ?thesis using x by simp
  qed
  have B: "(conns x \<noteq> [] \<longrightarrow> ((docs st)(n \<mapsto> ?d)) (name x) = Some e) \<and>
        (conns x = [] \<longrightarrow> destroyed x) \<and>
        distinct (map fst (conns x)) \<and> e < Suc ?d"
    if "((heap st)(?d \<mapsto> doc)) e = Some x" for e x
  proof (cases "e = ?d")
    case True
    then show ?thesis using that nd by auto
  next
    case False
    then have x: "heap st e = Some x" using that by simp
    have "name x \<noteq> n" if "conns x \<noteq> []"
      using i2[OF x] that f by auto
    then show ?thesis using i2[OF x] by auto
  qed
  show ?thesis unfolding relay_inv_def using A B by simp
qed

lemma inv_register:
  assumes i: "relay_inv st"
  shows "relay_inv (upd_doc (fst (getYDoc E n cid st))
                     (\<lambda>doc. doc\<lparr>conns := AList.update ws [] (conns doc)\<rparr>)
                     (snd (getYDoc E n cid st)))"
proof (cases "docs st n")
  case (Some d)
  then obtain doc where doc: "heap st d = Some doc" "name doc = n" "conns doc \<noteq> []"
    "\<not> destroyed doc"
    using i unfolding relay_inv_def by blast
  have dk: "distinct (map fst (conns doc))"
    using i doc(1) unfolding relay_inv_def by blast
  have ne: "AList.update ws [] (conns doc) \<noteq> []"
    by (cases "conns doc") auto
  have "relay_inv (st\<lparr>heap := (heap st)(d \<mapsto> doc\<lparr>conns := AList.update ws [] (conns doc)\<rparr>)\<rparr>)"
    by (rule inv_conns_update[OF i doc(1)]) (simp_all add: doc ne dk distinct_update)
  then show ?thesis using Some doc by (simp add: getYDoc_def upd_doc_def)
next
  case None
  have "relay_inv (st\<lparr>docs := (docs st)(n \<mapsto> nextDoc st),
                        nextDoc := Suc (nextDoc st),
                        heap := (heap st)(nextDoc st \<mapsto>
                           (newWSSharedDoc E n cid)\<lparr>conns := [(ws, [])]\<rparr>)\<rparr>)"
    by (rule inv_new_room[OF i None]) (simp_all add: newWSSharedDoc_def)
  then show ?thesis using None by (simp add: getYDoc_def upd_doc_def newWSSharedDoc_def)
qed

lemma inv_setupConnection:
  assumes i: "relay_inv st"
  shows "relay_inv (setupConnection E ws n cid st)"
  using inv_register[OF i, of E n cid ws]
  by (auto simp: setupConnection_def Let_def intro!: inv_send split: option.splits)

lemma inv_event: "relay_inv st \<Longrightarrow> relay_inv (step E ev st)"
  by (cases ev)
     (auto simp: sendCallback_def intro: inv_setupConnection inv_onMessage inv_onClose
        inv_closeConn split: option.splits)

lemma reachable_inv: "reachable E st \<Longrightarrow> relay_inv st"
  by (induction rule: reachable.induct) (simp_all add: inv_init inv_event)

lemma reachable_run:
  "reachable E st \<Longrightarrow> enabled_run E evs st \<Longrightarrow> reachable E (run E evs st)"
  by (induction evs arbitrary: st) (auto intro: reachable_step)

subsection \<open>The broadcast of a document update\<close>

lemma doc_update_broadcast:
  assumes "room (transports st ws) = Some d" "heap st d = Some doc" "\<not> destroyed doc"
    "distinct (map fst (conns doc))"
    "asSync p = Some sm" "sm = SyncUpdate u \<or> sm = SyncStep2 u"
    "applyUpdate E (ydoc doc) u = (y, Some upd, r)"
  shows "(\<forall>m\<in>set (new_msgs st (onMessage E ws (Frame messageSync p) st) ws). is_awareness m) \<and>
         (\<forall>x. registered st d x \<and> x \<noteq> ws \<and> healthy st x \<longrightarrow>
            filter (\<lambda>m. \<not> is_awareness m)
              (new_msgs st (onMessage E ws (Frame messageSync p) st) x)
              = [MsgSync (SyncUpdate upd)]) \<and>
         (\<forall>x. registered st d x \<and> x \<noteq> ws \<and> \<not> healthy st x \<longrightarrow>
            \<not> registered (onMessage E ws (Frame messageSync p) st) d x \<and>
            new_msgs st (onMessage E ws (Frame messageSync p) st) x = [])"
proof -
  let ?st1 = "st\<lparr>heap := (heap st)(d \<mapsto> doc\<lparr>ydoc := y\<rparr>)\<rparr>"
  let ?m = "MsgSync (SyncUpdate upd)"
  let ?ks = "map fst (conns doc)"
  let ?st' = "forEachSend d ?ks (Some ws) ?m ?st1"
  let ?on = "onMessage E ws (Frame messageSync p) st"
  have eq: "?on = (if r then ?st'\<lparr>errlog := errlog ?st' @ [CorruptUpdate]\<rparr> else ?st')"
    using onMessage_update[OF assms(1,2,3,5,6,7)] by (simp add: Let_def)
  have on1: "new_msgs st ?on x = new_msgs st ?st' x" for x
    unfolding eq by (simp add: new_msgs_def)
  have on2: "registered ?on d x = registered ?st' d x" for x
    unfolding eq by (simp add: registered_def conns_of_def)
  have nm: "new_msgs st ?st' x = new_msgs ?st1 ?st' x" for x
    by (simp add: new_msgs_def)
  have rg: "registered ?st1 d x = registered st d x" for x
    using assms(2) by (simp add: registered_def conns_of_def)
  have hl: "healthy ?st1 x = healthy st x" for x
    by (simp add: healthy_def)
  have ks: "registered st d x \<Longrightarrow> x \<in> set ?ks" for x
    using assms(2) by (simp add: registered_iff conns_of_def)
  have a: "\<forall>m\<in>set (new_msgs st ?st' ws). is_awareness m"
    unfolding nm by (rule R_only_aw_new[OF only_aw_rel(4)]) simp
  have b: "filter (\<lambda>m. \<not> is_awareness m) (new_msgs st ?st' x) = [?m]"
    if "registered st d x" "x \<noteq> ws" "healthy st x" for x
    unfolding nm
    using forEachSend_delivers[of ?m "Some ws" x ?ks ?st1 d] that assms(4) ks[of x] rg hl
    by simp
  have c: "\<not> registered ?st' d x \<and> new_msgs st ?st' x = []"
    if "registered st d x" "x \<noteq> ws" "\<not> healthy st x" for x
  proof -
    have 1: "\<not> registered ?st' d x"
      using forEachSend_closes_unhealthy[of x ?ks "Some ws" ?st1 d ?m] that ks[of x] hl by simp
    have "\<not> healthy ?st1 x" using that hl by simp
    then have 2: "new_msgs ?st1 ?st' x = []"
      by (intro R_tr_silent[OF tr_rel(4)])
    show ?thesis using 1 2 nm by simp
  qed
  show ?thesis unfolding on1 on2 using a b c by blast
qed

lemma onMessage_update_destroyed:
  assumes "room (transports st ws) = Some d" "heap st d = Some doc" "destroyed doc"
    "asSync p = Some sm" "sm = SyncUpdate u \<or> sm = SyncStep2 u"
    "applyUpdate E (ydoc doc) u = (y, ev, r)"
  shows "transports (onMessage E ws (Frame messageSync p) st) = transports st"
    and "conns_of (onMessage E ws (Frame messageSync p) st) d = conns_of st d"
proof -
  let ?st1 = "st\<lparr>heap := (heap st)(d \<mapsto> doc\<lparr>ydoc := y\<rparr>)\<rparr>"
  have "readUpdate E d ws u st = (?st1, if r then Some CorruptUpdate else None)"
    using assms(2,3,6) by (cases ev) (simp_all add: readUpdate_def Let_def)
  then have "handleFrame E d ws (Frame messageSync p) st
               = (?st1, if r then Some CorruptUpdate else None)"
    using assms(4,5) by (auto simp: handleSync_def)
  then have eq: "onMessage E ws (Frame messageSync p) st =
      (if r then ?st1\<lparr>errlog := errlog st @ [CorruptUpdate]\<rparr> else ?st1)"
    using assms(1) by (simp add: onMessage_def)
  show "transports (onMessage E ws (Frame messageSync p) st) = transports st"
    unfolding eq by simp
  show "conns_of (onMessage E ws (Frame messageSync p) st) d = conns_of st d"
    unfolding eq using assms(2) by (simp add: conns_of_def)
qed

subsection \<open>The removal broadcast of a disconnect\<close>





section \<open>The sender of a frame and the removal broadcasts\<close>

subsection \<open>What a call leaves alone of a healthy connection\<close>

lemma R_sender_trans:
  assumes ab: "R_sender x d a b" and bc: "R_sender x d b c"
  shows "R_sender x d a c"
proof (cases "healthy a x")
  case False
  then show ?thesis by (simp add: R_sender_def)
next
  case True
  have 1: "transports b x = (transports a x)\<lparr>sent := sent (transports b x)\<rparr>"
    and 2: "map_of (conns_of b d) x = map_of (conns_of a d) x"
    using ab True by (simp_all add: R_sender_def)
  have "readyState (transports b x) = readyState (transports a x)"
    "sendThrows (transports b x) = sendThrows (transports a x)"
    by (subst 1, simp)+
  then have hb: "healthy b x" using True by (simp add: healthy_def)
  have 3: "transports c x = (transports b x)\<lparr>sent := sent (transports c x)\<rparr>"
    and 4: "map_of (conns_of c d) x = map_of (conns_of b d) x"
    using bc hb by (simp_all add: R_sender_def)
  have "transports c x = (transports a x)\<lparr>sent := sent (transports c x)\<rparr>"
    by (subst 3, subst 1, simp)
  then show ?thesis using 2 4 by (simp add: R_sender_def)
qed

lemma sender_rel:
  fixes st :: "'a relay"
  shows "R_sender x d st (send d c m st)"
    and "c \<noteq> x \<or> \<not> healthy st x \<Longrightarrow> R_sender x d st (closeConn d c st)"
    and "orig \<noteq> OConn x \<Longrightarrow> R_sender x d st (awarenessChangeHandler d ch orig st)"
    and "R_sender x d st (forEachSend d cs excl m st)"
proof -
  have 1: "\<And>d (st :: 'a relay). R_sender x d st st" by (simp add: R_sender_def)
  have 2: "\<And>d (a :: 'a relay) b c. R_sender x d a b \<Longrightarrow> R_sender x d b c \<Longrightarrow> R_sender x d a c"
    by (rule R_sender_trans)
  have 3: "\<And>(c::conn) es. True" by simp
  have 4: "\<And>d c m (st :: 'a relay). healthy st c \<Longrightarrow> True \<Longrightarrow> R_sender x d st (transmit c m st)"
    by (simp add: R_sender_def)
  have 5: "\<And>d c (st :: 'a relay). \<not> registered st d c \<Longrightarrow> \<not> healthy st c \<or> c \<noteq> x \<Longrightarrow>
             R_sender x d st (upd_transport c close_transport st)"
    by (auto simp: R_sender_def)
  have 6: "\<And>d c (st :: 'a relay). registered st d c \<Longrightarrow> \<not> healthy st c \<or> c \<noteq> x \<Longrightarrow>
             R_sender x d st (fst (deregister d c st))"
    by (auto simp: R_sender_def conns_of_deregister delete_conv)
  have 7: "OConn x \<noteq> ONull" by simp
  have 8: "\<And>d ch orig (st :: 'a relay). OConn x \<noteq> orig \<Longrightarrow>
             R_sender x d st (upd_doc d (track_controlled ch orig) st)"
    by (auto simp: R_sender_def conns_of_def track_controlled_def update_conv'
        split: option.splits origin.splits)
  have 9: "\<And>d (st :: 'a relay). R_sender x d st (destroyIfEmpty d st)"
    by (simp add: R_sender_def)
  note ob = 1 2 3 4 5 6 7 8 9
  note r = mutual_relG[of "R_sender x" "\<lambda>c m. True" "\<lambda>c. c \<noteq> x" "\<lambda>orig. OConn x \<noteq> orig"]
  show "R_sender x d st (send d c m st)"
    by (rule r(1); (fact ob | simp))
  show "R_sender x d st (closeConn d c st)" if "c \<noteq> x \<or> \<not> healthy st x"
  proof (cases "c = x")
    case False
    show ?thesis
    proof (rule r(2))
      show "\<not> healthy st c \<or> c \<noteq> x" using False by simp
    qed (fact ob)+
  next
    case True
    then show ?thesis using that by (simp add: R_sender_def)
  qed
  show "R_sender x d st (awarenessChangeHandler d ch orig st)" if "orig \<noteq> OConn x"
  proof (rule r(3))
    show "OConn x \<noteq> orig" using that by simp
  qed (fact ob)+
  show "R_sender x d st (forEachSend d cs excl m st)"
    by (rule r(4); (fact ob | simp))
qed

subsection \<open>The removal broadcasts of the recursion\<close>













section \<open>Frames that raise, and the handshake\<close>

subsection \<open>What a frame that raises has done\<close>

lemma R_sender_heap:
  "conns doc' = conns doc \<Longrightarrow> heap st d = Some doc \<Longrightarrow>
     R_sender x d st (st\<lparr>heap := (heap st)(d \<mapsto> doc')\<rparr>)"
  by (simp add: R_sender_def conns_of_def healthy_def)

lemma R_only_aw_heap: "R_only_aw x d st (st\<lparr>heap := h\<rparr>)"
  by (simp add: R_only_aw_def new_msgs_def)

lemma readUpdate_sender:
  fixes st :: "'a relay"
  shows "R_sender ws d st (fst (readUpdate E d ws u st))"
    and "R_only_aw ws d st (fst (readUpdate E d ws u st))"
    and "errlog (fst (readUpdate E d ws u st)) = errlog st"
proof -
  show "R_sender ws d st (fst (readUpdate E d ws u st))"
  proof (cases "heap st d")
    case None
    then show ?thesis by (simp add: readUpdate_def R_sender_def)
  next
    case (Some doc)
    let ?st1 = "st\<lparr>heap := (heap st)(d \<mapsto> doc\<lparr>ydoc := fst (applyUpdate E (ydoc doc) u)\<rparr>)\<rparr>"
    have 1: "R_sender ws d st ?st1" by (rule R_sender_heap[OF _ Some]) simp
    have 2: "R_sender ws d ?st1 (forEachSend d cs (Some ws) m ?st1)" for cs m
      by (rule sender_rel(4))
    show ?thesis
      using Some 1 R_sender_trans[OF 1 2]
      by (simp add: readUpdate_def Let_def docUpdateHandler_def split: option.splits)
  qed
  show "R_only_aw ws d st (fst (readUpdate E d ws u st))"
  proof (cases "heap st d")
    case None
    then show ?thesis by (simp add: readUpdate_def R_only_aw_def)
  next
    case (Some doc)
    let ?st1 = "st\<lparr>heap := (heap st)(d \<mapsto> doc\<lparr>ydoc := fst (applyUpdate E (ydoc doc) u)\<rparr>)\<rparr>"
    have 1: "R_only_aw ws d st ?st1" by (rule R_only_aw_heap)
    have 2: "R_only_aw ws d ?st1 (forEachSend d cs (Some ws) m ?st1)" for cs m
      by (rule only_aw_rel(4)) simp
    show ?thesis
      using Some 1 R_only_aw_trans[OF 1 2]
      by (simp add: readUpdate_def Let_def docUpdateHandler_def split: option.splits)
  qed
  show "errlog (fst (readUpdate E d ws u st)) = errlog st"
  proof (cases "heap st d")
    case None
    then show ?thesis by (simp add: readUpdate_def)
  next
    case (Some doc)
    let ?st1 = "st\<lparr>heap := (heap st)(d \<mapsto> doc\<lparr>ydoc := fst (applyUpdate E (ydoc doc) u)\<rparr>)\<rparr>"
    have "errlog (forEachSend d cs (Some ws) m ?st1) = errlog st" for cs m
      using frame_rel(4)[of d ?st1 cs "Some ws" m] by (simp add: R_frame_def)
    then show ?thesis
      using Some by (simp add: readUpdate_def Let_def docUpdateHandler_def split: option.splits)
  qed
qed

lemma readUpdate_ydoc:
  assumes "heap st d = Some doc"
  shows "map_option ydoc (heap (fst (readUpdate E d ws u st)) d)
           = Some (fst (applyUpdate E (ydoc doc) u))"
proof -
  let ?st1 = "st\<lparr>heap := (heap st)(d \<mapsto> doc\<lparr>ydoc := fst (applyUpdate E (ydoc doc) u)\<rparr>)\<rparr>"
  have "map_option ydoc (heap (forEachSend d cs (Some ws) m ?st1) d)
          = Some (fst (applyUpdate E (ydoc doc) u))" for cs m
    using frame_rel(4)[of d ?st1 cs "Some ws" m] by (simp add: R_frame_def)
  then show ?thesis
    using assms by (simp add: readUpdate_def Let_def docUpdateHandler_def split: option.splits)
qed

text \<open>The frames that raise, and the state they leave.\<close>

lemma handleFrame_raises:
  assumes "handleFrame E d ws fr st = (st', Some e)"
  shows "fr = Malformed \<and> st' = st \<or>
         (\<exists>p. fr = Frame messageSync p \<and> asSync p = None \<and> st' = st) \<or>
         (\<exists>p sv. fr = Frame messageSync p \<and> asSync p = Some (SyncStep1 sv) \<and> st' = st) \<or>
         (\<exists>p u. fr = Frame messageSync p \<and>
                 (asSync p = Some (SyncUpdate u) \<or> asSync p = Some (SyncStep2 u)) \<and>
                 st' = fst (readUpdate E d ws u st)) \<or>
         (\<exists>p. fr = Frame messageAwareness p \<and> asAwareness p = None \<and> st' = st) \<or>
         (\<exists>p es doc. fr = Frame messageAwareness p \<and> asAwareness p = Some (AwCorrupt es) \<and>
                 heap st d = Some doc \<and>
                 st' = st\<lparr>heap := (heap st)(d \<mapsto> doc\<lparr>awareness :=
                            fst (applyAwarenessUpdate (awareness doc) es)\<rparr>)\<rparr>)"
proof (cases fr)
  case Malformed
  then show ?thesis using assms by simp
next
  case (Frame t p)
  consider "t = messageSync" | "t \<noteq> messageSync" "t = messageAwareness"
    | "t \<noteq> messageSync" "t \<noteq> messageAwareness" by blast
  then show ?thesis
  proof cases
    case 1
    show ?thesis
    proof (cases "asSync p")
      case None
      then show ?thesis using assms Frame 1 by (simp add: handleSync_def)
    next
      case (Some sm)
      show ?thesis
      proof (cases sm)
        case (SyncStep1 sv)
        then show ?thesis
          using assms Frame 1 Some
          by (auto simp: handleSync_def split: option.splits)
      next
        case (SyncStep2 u)
        then show ?thesis
          using assms Frame 1 Some by (auto simp: handleSync_def prod_eq_iff)
      next
        case (SyncUpdate u)
        then show ?thesis
          using assms Frame 1 Some by (auto simp: handleSync_def prod_eq_iff)
      qed
    qed
  next
    case 2
    show ?thesis
    proof (cases "asAwareness p")
      case None
      then show ?thesis using assms Frame 2 by (simp add: handleAwareness_def)
    next
      case (Some au)
      then show ?thesis
        using assms Frame 2
        by (cases au) (auto simp: handleAwareness_def Let_def split: option.splits)
    qed
  next
    case 3
    then show ?thesis using assms Frame by (simp add: handleStats_def split: if_splits)
  qed
qed

lemma raising_frame_sender:
  fixes st :: "'a relay"
  assumes "handleFrame E d ws fr st = (st', Some e)"
  shows "R_sender ws d st st'" and "R_only_aw ws d st st'" and "errlog st' = errlog st"
proof -
  note c = handleFrame_raises[OF assms]
  have s0: "R_sender ws d st st" by (simp add: R_sender_def)
  have a0: "R_only_aw ws d st st" by (simp add: R_only_aw_def)
  have s1: "R_sender ws d st (st\<lparr>heap := (heap st)(d \<mapsto> doc\<lparr>awareness := a\<rparr>)\<rparr>)"
    if "heap st d = Some doc" for doc a
    by (rule R_sender_heap[OF _ that]) simp
  show "R_sender ws d st st'"
    using c s0 s1 readUpdate_sender(1)[of ws d st E] by (elim disjE exE conjE) simp_all
  show "R_only_aw ws d st st'"
    using c a0 R_only_aw_heap[of ws d st] readUpdate_sender(2)[of ws d st E]
    by (elim disjE exE conjE) simp_all
  show "errlog st' = errlog st"
    using c readUpdate_sender(3)[of E d ws _ st] by (elim disjE exE conjE) simp_all
qed

subsection \<open>\<^verbatim>\<open>setupConnection\<close> on a transport that does not take the payload\<close>



subsection \<open>A room with a connection, in a state that satisfies the invariant\<close>

lemma inv_room_live:
  assumes "relay_inv st" "heap st d = Some doc" "conns doc \<noteq> []"
  shows "\<not> destroyed doc" and "distinct (map fst (conns doc))"
proof -
  have i1: "\<And>n e. docs st n = Some e \<Longrightarrow>
      \<exists>doc. heap st e = Some doc \<and> name doc = n \<and> conns doc \<noteq> [] \<and> \<not> destroyed doc"
    and i2: "\<And>e doc. heap st e = Some doc \<Longrightarrow>
        (conns doc \<noteq> [] \<longrightarrow> docs st (name doc) = Some e) \<and>
        (conns doc = [] \<longrightarrow> destroyed doc) \<and>
        distinct (map fst (conns doc)) \<and> e < nextDoc st"
    using assms(1) unfolding relay_inv_def by blast+
  show "\<not> destroyed doc"
    using i2[OF assms(2)] assms(3) i1[of "name doc" d] assms(2) by auto
  show "distinct (map fst (conns doc))" using i2[OF assms(2)] by simp
qed

section \<open>The claims\<close>

subsection \<open>C1: a presence update comes back to its sender\<close>

text \<open>
  C1 says that a PRESENCE frame from connection C is forwarded verbatim to every other
  connection and that C gets no copy of it back. The code does the verbatim forward
  (lines 227 to 231), but \<^verbatim>\<open>applyAwarenessUpdate\<close> has fired the awareness handler
  before, and that handler sends the re-encoded update to every entry of \<open>conns\<close>,
  the origin included (lines 94 to 97). In room \<open>r\<close> with the open connections 1 and
  2, connection 1 publishes the state of id 5: connection 1 gets the update back, and
  connection 2 gets it twice.
\<close>

theorem presence_update_echoed_to_sender:
  "sent (transports two_open 1) = [MsgSync (SyncStep1 [])] \<and>
   sent (transports two_open 2) = [MsgSync (SyncStep1 [])] \<and>
   sent (transports (onMessage gsetEngine 1 (awFrame [(5, 1, Some (JStr ''a''))]) two_open) 1)
     = [MsgSync (SyncStep1 []), MsgAwareness [(5, 1, Some (JStr ''a''))]] \<and>
   sent (transports (onMessage gsetEngine 1 (awFrame [(5, 1, Some (JStr ''a''))]) two_open) 2)
     = [MsgSync (SyncStep1 []), MsgAwareness [(5, 1, Some (JStr ''a''))],
        MsgAwareness [(5, 1, Some (JStr ''a''))]]"
  by code_simp

subsection \<open>C2: a document update is not echoed\<close>

text \<open>
  C2, in every state an execution can reach: connection \<open>ws\<close> sends a SYNC frame with
  an update (or a Step-2 payload) that the engine applies with a change, so that the
  document fires its \<^verbatim>\<open>update\<close> event with the update \<open>upd\<close>, whether or not the
  engine raises afterwards. Then nothing but
  presence messages is added to the outbox of \<open>ws\<close>: the update is not sent back.
  Every other registered connection whose transport takes the payload gets the update
  message exactly once (next to presence messages, if connections were closed on the
  way). Every other registered connection whose transport does not take the payload gets
  nothing and is deregistered, which is what \<^verbatim>\<open>send\<close> does with such a connection.
\<close>

theorem doc_update_not_echoed:
  assumes "reachable E st" "room (transports st ws) = Some d" "heap st d = Some doc"
    "asSync p = Some sm" "sm = SyncUpdate u \<or> sm = SyncStep2 u"
    "applyUpdate E (ydoc doc) u = (y, Some upd, r)"
  shows "(\<forall>m\<in>set (new_msgs st (onMessage E ws (Frame messageSync p) st) ws). is_awareness m) \<and>
         (\<forall>x. registered st d x \<and> x \<noteq> ws \<and> healthy st x \<longrightarrow>
            filter (\<lambda>m. \<not> is_awareness m)
              (new_msgs st (onMessage E ws (Frame messageSync p) st) x)
              = [MsgSync (SyncUpdate upd)]) \<and>
         (\<forall>x. registered st d x \<and> x \<noteq> ws \<and> \<not> healthy st x \<longrightarrow>
            \<not> registered (onMessage E ws (Frame messageSync p) st) d x \<and>
            new_msgs st (onMessage E ws (Frame messageSync p) st) x = [])"
proof -
  have i: "relay_inv st" using assms(1) by (rule reachable_inv)
  have i1: "\<And>n e. docs st n = Some e \<Longrightarrow>
      \<exists>doc. heap st e = Some doc \<and> name doc = n \<and> conns doc \<noteq> [] \<and> \<not> destroyed doc"
    and i2: "\<And>e doc. heap st e = Some doc \<Longrightarrow>
        (conns doc \<noteq> [] \<longrightarrow> docs st (name doc) = Some e) \<and>
        (conns doc = [] \<longrightarrow> destroyed doc) \<and>
        distinct (map fst (conns doc)) \<and> e < nextDoc st"
    using i unfolding relay_inv_def by blast+
  show ?thesis
  proof (cases "destroyed doc")
    case False
    have "distinct (map fst (conns doc))" using i2[OF assms(3)] by simp
    then show ?thesis
      using doc_update_broadcast[OF assms(2,3) False _ assms(4,5,6)] by blast
  next
    case True
    have "conns doc = []"
      using i2[OF assms(3)] i1[of "name doc" d] assms(3) True by auto
    then have nr: "\<not> registered st d x" for x
      using assms(3) by (simp add: registered_def conns_of_def)
    have "new_msgs st (onMessage E ws (Frame messageSync p) st) ws = []"
      by (simp add: onMessage_update_destroyed(1)[OF assms(2,3) True assms(4,5,6)] new_msgs_def)
    then show ?thesis using nr by simp
  qed
qed

theorem doc_update_not_echoed_witness:
  "reachable gsetEngine three_one_closing \<and>
   room (transports three_one_closing 1) = Some 0 \<and>
   heap three_one_closing 0 = Some \<lparr>name = ''r'', conns = [(1, []), (2, [7]), (3, [])],
       awareness = \<lparr>clientID = 100, states = [(7, JStr ''b'')], meta = [(100, 1), (7, 1)]\<rparr>,
       ydoc = [], destroyed = False\<rparr> \<and>
   healthy three_one_closing 3 \<and> \<not> healthy three_one_closing 2 \<and>
   filter (\<lambda>m. \<not> is_awareness m)
     (new_msgs three_one_closing
        (onMessage gsetEngine 1 (syncFrame (SyncUpdate [4])) three_one_closing) 1)
     = [] \<and>
   filter (\<lambda>m. \<not> is_awareness m)
     (new_msgs three_one_closing
        (onMessage gsetEngine 1 (syncFrame (SyncUpdate [4])) three_one_closing) 3)
     = [MsgSync (SyncUpdate [4])] \<and>
   \<not> registered (onMessage gsetEngine 1 (syncFrame (SyncUpdate [4])) three_one_closing) 0 2"
proof -
  let ?doc = "\<lparr>name = ''r'', conns = [(1, []), (2, [7]), (3, [])],
       awareness = \<lparr>clientID = 100, states = [(7, JStr ''b'')], meta = [(100, 1), (7, 1)]\<rparr>,
       ydoc = [], destroyed = False\<rparr> :: nat list doc"
  let ?p = "\<lparr>asSync = Some (SyncUpdate [4]), asAwareness = None\<rparr>"
  have en: "enabled_run gsetEngine
     [Connect 1 ''r'' 100, Connect 2 ''r'' 200, Connect 3 ''r'' 300,
      Message 2 (awFrame [(7, 1, Some (JStr ''b''))]), Transport 2 CLOSING False] init" by code_simp
  have h0: "reachable gsetEngine three_one_closing"
    unfolding three_one_closing_def by (rule reachable_run[OF reachable_init en])
  have h1: "room (transports three_one_closing 1) = Some 0" by code_simp
  have h2: "heap three_one_closing 0 = Some ?doc" by code_simp
  have h5: "asSync ?p = Some (SyncUpdate [4])" by simp
  have h6: "SyncUpdate [4] = SyncUpdate [4] \<or> SyncUpdate [4] = SyncStep2 [4]" by simp
  have h7: "applyUpdate gsetEngine (ydoc ?doc) [4] = ([4], Some [4], False)"
    by (simp add: gsetEngine_def Let_def)
  have r3: "registered three_one_closing 0 3" by code_simp
  have r2: "registered three_one_closing 0 2" by code_simp
  have g3: "healthy three_one_closing 3" by code_simp
  have g2: "\<not> healthy three_one_closing 2" by code_simp
  note t = doc_update_not_echoed[OF h0 h1 h2 h5 h6 h7]
  have a: "filter (\<lambda>m. \<not> is_awareness m)
     (new_msgs three_one_closing
        (onMessage gsetEngine 1 (syncFrame (SyncUpdate [4])) three_one_closing) 1)
     = []"
    using t[THEN conjunct1] by (simp add: syncFrame_def filter_empty_conv)
  have b: "filter (\<lambda>m. \<not> is_awareness m)
     (new_msgs three_one_closing
        (onMessage gsetEngine 1 (syncFrame (SyncUpdate [4])) three_one_closing) 3)
     = [MsgSync (SyncUpdate [4])]"
    using t[THEN conjunct2, THEN conjunct1, rule_format, of 3] r3 g3
    by (simp add: syncFrame_def)
  have c: "\<not> registered (onMessage gsetEngine 1 (syncFrame (SyncUpdate [4])) three_one_closing) 0 2"
    using t[THEN conjunct2, THEN conjunct2, rule_format, of 2] r2 g2
    by (simp add: syncFrame_def)
  show ?thesis using h0 h1 h2 g3 g2 a b c by simp
qed

subsection \<open>C3: a frame that raises\<close>

text \<open>
  C3 as stated fails, in two ways. A frame that raises is not always dropped:
  \<^verbatim>\<open>applyAwarenessUpdate\<close> applies the entries of a presence update one by one, so when
  the second entry does not decode the first is in the table already. In room \<open>r\<close>
  with the open connections 1 and 2, connection 1 sends such an update: the frame
  raises, and id 5 has a state afterwards, which no connection controls. And the sender
  does not always stay registered: \<^verbatim>\<open>Y.applyUpdate\<close> fires the \<^verbatim>\<open>update\<close> event for
  the part of an update it has integrated before it raises. In room \<open>r\<close> with the
  connections 1 and 2, both with a closing transport, connection 1 sends an update
  whose second number does not decode: the broadcast of the first number closes
  connection 2, the removal of the presence of connection 2 is sent to connection 1,
  and that send closes connection 1 and destroys the room, all before the error is
  logged.
\<close>

theorem raising_frame_is_not_dropped:
  "snd (handleFrame gsetEngine 0 1 (awFrameCut [(5, 1, Some (JStr ''a''))]) two_open)
     = Some CorruptUpdate \<and>
   \<not> present two_open 0 5 \<and>
   present (onMessage gsetEngine 1 (awFrameCut [(5, 1, Some (JStr ''a''))]) two_open) 0 5 \<and>
   conns_of (onMessage gsetEngine 1 (awFrameCut [(5, 1, Some (JStr ''a''))]) two_open) 0
     = [(1, []), (2, [])] \<and>
   snd (handleFrame gsetEngine 0 1 (syncFrame (SyncUpdate [4, 255])) both_closing)
     = Some CorruptUpdate \<and>
   registered both_closing 0 1 \<and>
   docs both_closing ''r'' = Some 0 \<and>
   closeCalls (transports both_closing 1) = 0 \<and>
   \<not> registered (onMessage gsetEngine 1 (syncFrame (SyncUpdate [4, 255])) both_closing) 0 1 \<and>
   closeCalls (transports (onMessage gsetEngine 1 (syncFrame (SyncUpdate [4, 255])) both_closing) 1)
     = 1 \<and>
   docs (onMessage gsetEngine 1 (syncFrame (SyncUpdate [4, 255])) both_closing) ''r'' = None"
  by code_simp

text \<open>
  C3 amended, in every state an execution can reach. A frame from connection \<open>ws\<close>
  raises with the error \<open>e\<close>, and \<open>st'\<close> is the state the \<^verbatim>\<open>try\<close> block leaves
  behind. Then the handler appends \<open>e\<close> to the log and does nothing else. The frame
  is dropped without any effect when the type tag, the sync sub-message, the state
  vector of a Step 1 or the byte array of a presence update cannot be read. When
  \<^verbatim>\<open>applyAwarenessUpdate\<close> raises after the entries \<open>es\<close>, these entries are merged
  into the presence table and nothing else has changed: no transport, no controlled
  id. When \<^verbatim>\<open>Y.applyUpdate\<close> raises, the document is what the engine has made of it, and
  the update the engine has announced has gone once to every other registered
  connection whose transport takes it. In all cases a sender whose transport takes
  payloads is not closed and keeps its registration and its controlled ids: of its
  transport only the outbox can have changed, by presence messages.
\<close>

theorem frame_error_effects:
  assumes "reachable E st" "room (transports st ws) = Some d"
    and "handleFrame E d ws fr st = (st', Some e)"
  shows "onMessage E ws fr st = st'\<lparr>errlog := errlog st @ [e]\<rparr> \<and>
         (fr = Malformed \<or>
          (\<exists>p. fr = Frame messageSync p \<and>
                 (asSync p = None \<or> (\<exists>sv. asSync p = Some (SyncStep1 sv)))) \<or>
          (\<exists>p. fr = Frame messageAwareness p \<and> asAwareness p = None)
            \<longrightarrow> st' = st) \<and>
         (\<forall>p es doc. fr = Frame messageAwareness p \<and> asAwareness p = Some (AwCorrupt es) \<and>
              heap st d = Some doc \<longrightarrow>
            st' = st\<lparr>heap := (heap st)(d \<mapsto> doc\<lparr>awareness :=
                       fst (applyAwarenessUpdate (awareness doc) es)\<rparr>)\<rparr>) \<and>
         (\<forall>p u doc. fr = Frame messageSync p \<and>
              (asSync p = Some (SyncUpdate u) \<or> asSync p = Some (SyncStep2 u)) \<and>
              heap st d = Some doc \<longrightarrow>
            map_option ydoc (heap st' d) = Some (fst (applyUpdate E (ydoc doc) u)) \<and>
            (\<forall>upd x. fst (snd (applyUpdate E (ydoc doc) u)) = Some upd \<and>
                 registered st d x \<and> x \<noteq> ws \<and> healthy st x \<longrightarrow>
               filter (\<lambda>m. \<not> is_awareness m) (new_msgs st st' x)
                 = [MsgSync (SyncUpdate upd)])) \<and>
         (healthy st ws \<longrightarrow>
            transports st' ws = (transports st ws)\<lparr>sent := sent (transports st' ws)\<rparr> \<and>
            map_of (conns_of st' d) ws = map_of (conns_of st d) ws \<and>
            (\<forall>m\<in>set (new_msgs st st' ws). is_awareness m))"
proof -
  note hf = assms(3)
  note cs = handleFrame_raises[OF hf]
  have i: "relay_inv st" using assms(1) by (rule reachable_inv)
  have el: "errlog st' = errlog st" by (rule raising_frame_sender(3)[OF hf])
  have A: "onMessage E ws fr st = st'\<lparr>errlog := errlog st @ [e]\<rparr>"
    using assms(2) hf el by (simp add: onMessage_def)
  have B: "st' = st"
    if "fr = Malformed \<or>
          (\<exists>p. fr = Frame messageSync p \<and>
                 (asSync p = None \<or> (\<exists>sv. asSync p = Some (SyncStep1 sv)))) \<or>
          (\<exists>p. fr = Frame messageAwareness p \<and> asAwareness p = None)"
    using cs that by (auto simp: messageSync_def messageAwareness_def)
  have C: "st' = st\<lparr>heap := (heap st)(d \<mapsto> doc\<lparr>awareness :=
                       fst (applyAwarenessUpdate (awareness doc) es)\<rparr>)\<rparr>"
    if "fr = Frame messageAwareness p" "asAwareness p = Some (AwCorrupt es)" "heap st d = Some doc"
    for p es doc
    using cs that by (auto simp: messageSync_def messageAwareness_def)
  have D: "map_option ydoc (heap st' d) = Some (fst (applyUpdate E (ydoc doc) u)) \<and>
            (\<forall>upd x. fst (snd (applyUpdate E (ydoc doc) u)) = Some upd \<and>
                 registered st d x \<and> x \<noteq> ws \<and> healthy st x \<longrightarrow>
               filter (\<lambda>m. \<not> is_awareness m) (new_msgs st st' x)
                 = [MsgSync (SyncUpdate upd)])"
    if f: "fr = Frame messageSync p"
      and s: "asSync p = Some (SyncUpdate u) \<or> asSync p = Some (SyncStep2 u)"
      and h: "heap st d = Some doc"
    for p u doc
  proof -
    have st': "st' = fst (readUpdate E d ws u st)"
      using cs f s by (auto simp: messageSync_def messageAwareness_def)
    have 1: "map_option ydoc (heap st' d) = Some (fst (applyUpdate E (ydoc doc) u))"
      unfolding st' by (rule readUpdate_ydoc[OF h])
    have 2: "filter (\<lambda>m. \<not> is_awareness m) (new_msgs st st' x) = [MsgSync (SyncUpdate upd)]"
      if ev: "fst (snd (applyUpdate E (ydoc doc) u)) = Some upd"
        and x: "registered st d x" "x \<noteq> ws" "healthy st x"
      for upd x
    proof -
      have ne: "conns doc \<noteq> []" using x(1) h by (auto simp: registered_def conns_of_def)
      note live = inv_room_live[OF i h ne]
      obtain sm where sm: "asSync p = Some sm" "sm = SyncUpdate u \<or> sm = SyncStep2 u"
        using s by blast
      have au: "applyUpdate E (ydoc doc) u
                  = (fst (applyUpdate E (ydoc doc) u), Some upd,
                     snd (snd (applyUpdate E (ydoc doc) u)))"
        using ev by (simp add: prod_eq_iff)
      note b = doc_update_broadcast[OF assms(2) h live sm au, THEN conjunct2, THEN conjunct1,
          rule_format, of x]
      have "new_msgs st (onMessage E ws fr st) x = new_msgs st st' x"
        unfolding A by (simp add: new_msgs_def)
      then show ?thesis using b x f by simp
    qed
    show ?thesis using 1 2 by blast
  qed
  have F: "transports st' ws = (transports st ws)\<lparr>sent := sent (transports st' ws)\<rparr> \<and>
            map_of (conns_of st' d) ws = map_of (conns_of st d) ws \<and>
            (\<forall>m\<in>set (new_msgs st st' ws). is_awareness m)"
    if "healthy st ws"
    using raising_frame_sender(1)[OF hf] R_only_aw_new[OF raising_frame_sender(2)[OF hf]] that
    by (simp add: R_sender_def)
  show ?thesis using A B C D F by blast
qed

theorem frame_error_effects_witness:
  "reachable gsetEngine three_one_closing \<and>
   room (transports three_one_closing 1) = Some 0 \<and>
   healthy three_one_closing 1 \<and> healthy three_one_closing 3 \<and>
   snd (handleFrame gsetEngine 0 1 (syncFrame (SyncUpdate [4, 255])) three_one_closing)
     = Some CorruptUpdate \<and>
   errlog (onMessage gsetEngine 1 (syncFrame (SyncUpdate [4, 255])) three_one_closing)
     = [CorruptUpdate] \<and>
   map_of (conns_of (fst (handleFrame gsetEngine 0 1 (syncFrame (SyncUpdate [4, 255]))
                            three_one_closing)) 0) 1 = Some [] \<and>
   map_option ydoc (heap (fst (handleFrame gsetEngine 0 1 (syncFrame (SyncUpdate [4, 255]))
                                 three_one_closing)) 0) = Some [4] \<and>
   filter (\<lambda>m. \<not> is_awareness m)
     (new_msgs three_one_closing
        (fst (handleFrame gsetEngine 0 1 (syncFrame (SyncUpdate [4, 255])) three_one_closing)) 3)
     = [MsgSync (SyncUpdate [4])]"
proof -
  let ?doc = "\<lparr>name = ''r'', conns = [(1, []), (2, [7]), (3, [])],
       awareness = \<lparr>clientID = 100, states = [(7, JStr ''b'')], meta = [(100, 1), (7, 1)]\<rparr>,
       ydoc = [], destroyed = False\<rparr> :: nat list doc"
  let ?p = "\<lparr>asSync = Some (SyncUpdate [4, 255]), asAwareness = None\<rparr>"
  let ?fr = "Frame messageSync ?p"
  let ?st' = "fst (handleFrame gsetEngine 0 1 ?fr three_one_closing)"
  have en: "enabled_run gsetEngine
     [Connect 1 ''r'' 100, Connect 2 ''r'' 200, Connect 3 ''r'' 300,
      Message 2 (awFrame [(7, 1, Some (JStr ''b''))]), Transport 2 CLOSING False] init" by code_simp
  have h0: "reachable gsetEngine three_one_closing"
    unfolding three_one_closing_def by (rule reachable_run[OF reachable_init en])
  have h1: "room (transports three_one_closing 1) = Some 0" by code_simp
  have h2: "heap three_one_closing 0 = Some ?doc" by code_simp
  have g1: "healthy three_one_closing 1" by code_simp
  have g3: "healthy three_one_closing 3" by code_simp
  have r3: "registered three_one_closing 0 3" by code_simp
  have c1: "map_of (conns_of three_one_closing 0) 1 = Some []" by code_simp
  have el: "errlog three_one_closing = []" by code_simp
  have sn: "snd (handleFrame gsetEngine 0 1 ?fr three_one_closing) = Some CorruptUpdate"
    by code_simp
  have hf: "handleFrame gsetEngine 0 1 ?fr three_one_closing = (?st', Some CorruptUpdate)"
    using sn by (simp add: prod_eq_iff)
  have au: "applyUpdate gsetEngine (ydoc ?doc) [4, 255] = ([4], Some [4], True)"
    by (simp add: gsetEngine_def Let_def)
  note t = frame_error_effects[OF h0 h1 hf]
  have a: "errlog (onMessage gsetEngine 1 ?fr three_one_closing) = [CorruptUpdate]"
    using t[THEN conjunct1] el by simp
  have d: "map_option ydoc (heap ?st' 0) = Some [4] \<and>
      filter (\<lambda>m. \<not> is_awareness m) (new_msgs three_one_closing ?st' 3)
        = [MsgSync (SyncUpdate [4])]"
    using t[THEN conjunct2, THEN conjunct2, THEN conjunct2, THEN conjunct1, rule_format,
        of ?p "[4, 255]" ?doc] h2 r3 g3 au
    by simp
  have f: "map_of (conns_of ?st' 0) 1 = Some []"
    using t[THEN conjunct2, THEN conjunct2, THEN conjunct2, THEN conjunct2, rule_format, OF g1] c1
    by simp
  show ?thesis using h0 h1 g1 g3 sn a d f by (simp add: syncFrame_def)
qed

subsection \<open>C4: one room per name\<close>

text \<open>
  C4, for every state an execution can reach:
  at most one room with a connection has a given name;
  the registry holds only rooms that exist, carry that name, have a connection and are
  not destroyed;
  a room with a connection is the one the registry has under its name, so
  \<^verbatim>\<open>getYDoc\<close> returns it unchanged and a new connection to that name is registered in it;
  a room without a connection is destroyed and is not in the registry;
  for a name that is not in the registry \<^verbatim>\<open>getYDoc\<close> allocates a new document at an
  unused address, with the fresh document state of the engine, a fresh presence table
  and no connection, and enters it under the name;
  and a \<^verbatim>\<open>closeConn\<close> that removes the last connection returns with the room destroyed
  and its name out of the registry.
\<close>

theorem one_room_per_name:
  assumes "reachable E st"
  shows "(\<forall>d doc d' doc'. heap st d = Some doc \<and> heap st d' = Some doc' \<and>
            conns doc \<noteq> [] \<and> conns doc' \<noteq> [] \<and> name doc = name doc' \<longrightarrow> d = d') \<and>
         (\<forall>n d. docs st n = Some d \<longrightarrow>
            (\<exists>doc. heap st d = Some doc \<and> name doc = n \<and> conns doc \<noteq> [] \<and> \<not> destroyed doc)) \<and>
         (\<forall>d doc. heap st d = Some doc \<and> conns doc \<noteq> [] \<longrightarrow>
            docs st (name doc) = Some d \<and>
            (\<forall>cid. getYDoc E (name doc) cid st = (d, st)) \<and>
            (\<forall>ws cid. healthy st ws \<longrightarrow>
               registered (setupConnection E ws (name doc) cid st) d ws)) \<and>
         (\<forall>d doc. heap st d = Some doc \<and> conns doc = [] \<longrightarrow>
            destroyed doc \<and> docs st (name doc) \<noteq> Some d) \<and>
         (\<forall>n cid. docs st n = None \<longrightarrow>
            heap st (fst (getYDoc E n cid st)) = None \<and>
            heap (snd (getYDoc E n cid st)) (fst (getYDoc E n cid st))
              = Some (newWSSharedDoc E n cid) \<and>
            docs (snd (getYDoc E n cid st)) n = Some (fst (getYDoc E n cid st))) \<and>
         (\<forall>d c. registered st d c \<and> conns_of (closeConn d c st) d = [] \<longrightarrow>
            destroyed_of (closeConn d c st) d \<and>
            (\<forall>n. name_of st d = Some n \<longrightarrow> docs (closeConn d c st) n = None))"
proof -
  have i: "relay_inv st" using assms by (rule reachable_inv)
  have i1: "\<And>n e. docs st n = Some e \<Longrightarrow>
      \<exists>doc. heap st e = Some doc \<and> name doc = n \<and> conns doc \<noteq> [] \<and> \<not> destroyed doc"
    and i2: "\<And>e doc. heap st e = Some doc \<Longrightarrow>
        (conns doc \<noteq> [] \<longrightarrow> docs st (name doc) = Some e) \<and>
        (conns doc = [] \<longrightarrow> destroyed doc) \<and>
        distinct (map fst (conns doc)) \<and> e < nextDoc st"
    using i unfolding relay_inv_def by blast+
  have a: "d = d'" if "heap st d = Some doc" "heap st d' = Some doc'" "conns doc \<noteq> []"
    "conns doc' \<noteq> []" "name doc = name doc'" for d doc d' doc'
    using i2[OF that(1)] i2[OF that(2)] that(3,4,5) by simp
  have c: "docs st (name doc) = Some d \<and>
            (\<forall>cid. getYDoc E (name doc) cid st = (d, st)) \<and>
            (\<forall>ws cid. healthy st ws \<longrightarrow>
               registered (setupConnection E ws (name doc) cid st) d ws)"
    if h: "heap st d = Some doc" "conns doc \<noteq> []" for d doc
  proof -
    have 1: "docs st (name doc) = Some d" using i2[OF h(1)] h(2) by simp
    then have 2: "getYDoc E (name doc) cid st = (d, st)" for cid by (simp add: getYDoc_def)
    have 3: "registered (setupConnection E ws (name doc) cid st) d ws" if "healthy st ws"
      for ws cid
      using that h(1)
      by (simp add: setupConnection_healthy[of st ws E "name doc" cid doc] 2 Let_def
          registered_def conns_of_def update_conv')
    show ?thesis using 1 2 3 by blast
  qed
  have e: "destroyed doc \<and> docs st (name doc) \<noteq> Some d"
    if h: "heap st d = Some doc" "conns doc = []" for d doc
    using i2[OF h(1)] h(2) i1[of "name doc" d] h(1) by auto
  have f: "heap st (fst (getYDoc E n cid st)) = None \<and>
            heap (snd (getYDoc E n cid st)) (fst (getYDoc E n cid st))
              = Some (newWSSharedDoc E n cid) \<and>
            docs (snd (getYDoc E n cid st)) n = Some (fst (getYDoc E n cid st))"
    if "docs st n = None" for n cid
  proof -
    have "heap st (nextDoc st) = None"
      using i2[of "nextDoc st"] by (cases "heap st (nextDoc st)") auto
    then show ?thesis using that by (simp add: getYDoc_def)
  qed
  have g: "destroyed_of (closeConn d c st) d \<and>
            (\<forall>n. name_of st d = Some n \<longrightarrow> docs (closeConn d c st) n = None)"
    if "registered st d c" "conns_of (closeConn d c st) d = []" for d c
    using that by (rule closeConn_empties_destroys)
  show ?thesis using a i1 c e f g by blast
qed

theorem one_room_per_name_witness:
  "reachable gsetEngine reused_after_empty \<and>
   heap reused_after_empty 0 = Some \<lparr>name = ''r'', conns = [],
       awareness = \<lparr>clientID = 100, states = [], meta = [(100, 2)]\<rparr>,
       ydoc = [4], destroyed = True\<rparr> \<and>
   heap reused_after_empty 1 = Some \<lparr>name = ''r'', conns = [(2, [])],
       awareness = \<lparr>clientID = 200, states = [], meta = [(200, 1)]\<rparr>,
       ydoc = [], destroyed = False\<rparr> \<and>
   docs reused_after_empty ''r'' = Some 1 \<and>
   getYDoc gsetEngine ''r'' 300 reused_after_empty = (1, reused_after_empty)"
proof -
  let ?doc = "\<lparr>name = ''r'', conns = [(2, [])],
       awareness = \<lparr>clientID = 200, states = [], meta = [(200, 1)]\<rparr>,
       ydoc = [], destroyed = False\<rparr> :: nat list doc"
  have en: "enabled_run gsetEngine [Connect 1 ''r'' 100, Message 1 (syncFrame (SyncUpdate [4])),
                     Closed 1, Connect 2 ''r'' 200] init" by code_simp
  have r: "reachable gsetEngine reused_after_empty"
    unfolding reused_after_empty_def by (rule reachable_run[OF reachable_init en])
  have h0: "heap reused_after_empty 0 = Some \<lparr>name = ''r'', conns = [],
       awareness = \<lparr>clientID = 100, states = [], meta = [(100, 2)]\<rparr>,
       ydoc = [4], destroyed = True\<rparr>" by code_simp
  have h1: "heap reused_after_empty 1 = Some ?doc" by code_simp
  note t = one_room_per_name[OF r, THEN conjunct2, THEN conjunct2, THEN conjunct1,
      rule_format, of 1 ?doc]
  have "docs reused_after_empty ''r'' = Some 1 \<and>
        getYDoc gsetEngine ''r'' 300 reused_after_empty = (1, reused_after_empty)"
    using t h1 by simp
  then show ?thesis using r h0 h1 by simp
qed

subsection \<open>C5: the handshake of a new connection\<close>




subsection \<open>C6: the removal broadcast of a disconnect\<close>




subsection \<open>C7: a send that fails closes the connection\<close>

text \<open>
  C7: a send to a registered connection whose transport is not open, or whose write
  raises, does what \<^verbatim>\<open>closeConn\<close> does, and so does the callback of a write that
  failed later. After \<^verbatim>\<open>closeConn\<close> the connection is not registered, none of the
  ids it controlled has a state in the presence table of the room, and if no connection
  is left the room is destroyed and its name is out of the registry. No send and no
  \<^verbatim>\<open>closeConn\<close> adds a payload to the outbox of a transport that is not open.
\<close>

theorem failed_send_closes_connection:
  assumes "map_of (conns_of st d) c = Some ids"
  shows "(\<not> healthy st c \<longrightarrow> send d c m st = closeConn d c st) \<and>
         sendCallback d c True st = closeConn d c st \<and>
         \<not> registered (closeConn d c st) d c \<and>
         (\<forall>i\<in>set ids. \<not> present (closeConn d c st) d i) \<and>
         (conns_of (closeConn d c st) d = [] \<longrightarrow>
            destroyed_of (closeConn d c st) d \<and>
            (\<forall>n. name_of st d = Some n \<longrightarrow> docs (closeConn d c st) n = None)) \<and>
         (\<forall>x. readyState (transports st x) \<noteq> OPEN \<longrightarrow>
            sent (transports (send d c m st) x) = sent (transports st x) \<and>
            sent (transports (closeConn d c st) x) = sent (transports st x))"
proof -
  have r: "registered st d c" using assms by (simp add: registered_def)
  show ?thesis
    using present_closeConn_controlled[OF assms] closeConn_empties_destroys[OF r]
    by (simp add: send_unhealthy sendCallback_def not_registered_after_closeConn
        nonopen_outbox_untouched)
qed

theorem failed_send_closes_connection_witness:
  "map_of (conns_of closing_with_presence 0) 1 = Some [5] \<and>
   \<not> healthy closing_with_presence 1 \<and>
   present closing_with_presence 0 5 \<and>
   send 0 1 (MsgStats 0) closing_with_presence = closeConn 0 1 closing_with_presence \<and>
   \<not> registered (closeConn 0 1 closing_with_presence) 0 1 \<and>
   \<not> present (closeConn 0 1 closing_with_presence) 0 5 \<and>
   sent (transports (send 0 1 (MsgStats 0) closing_with_presence) 1)
     = sent (transports closing_with_presence 1)"
proof -
  have h1: "map_of (conns_of closing_with_presence 0) 1 = Some [5]" by code_simp
  have h2: "\<not> healthy closing_with_presence 1" by code_simp
  have h3: "present closing_with_presence 0 5" by code_simp
  have h4: "readyState (transports closing_with_presence 1) \<noteq> OPEN" by code_simp
  show ?thesis
    using failed_send_closes_connection[OF h1, of "MsgStats 0"] h1 h2 h3 h4 by simp
qed

subsection \<open>C8: the reply to Sync-Step-1\<close>

text \<open>
  C8: a SYNC frame with a Step-1 payload makes the relay send the Step-2 message with
  the update the engine computes from the state vector, by \<^verbatim>\<open>send\<close> to the sender.
  A sender whose transport takes the payload gets exactly this message and no other
  transport is touched. In every case, whatever another connection is sent while the
  frame is handled is a presence message, never the Step-2 reply.
\<close>

theorem step1_reply_goes_to_sender_only:
  assumes "room (transports st ws) = Some d" "heap st d = Some doc"
    "asSync p = Some (SyncStep1 sv)" "encodeStateAsUpdate E (ydoc doc) sv = Some u"
  shows "onMessage E ws (Frame messageSync p) st = send d ws (MsgSync (SyncStep2 u)) st \<and>
         (healthy st ws \<longrightarrow>
            sent (transports (onMessage E ws (Frame messageSync p) st) ws)
              = sent (transports st ws) @ [MsgSync (SyncStep2 u)] \<and>
            (\<forall>x. x \<noteq> ws \<longrightarrow>
               transports (onMessage E ws (Frame messageSync p) st) x = transports st x)) \<and>
         (\<forall>x. x \<noteq> ws \<longrightarrow>
            (\<forall>m\<in>set (new_msgs st (onMessage E ws (Frame messageSync p) st) x).
               is_awareness m))"
proof -
  have "\<forall>m\<in>set (new_msgs st (send d ws (MsgSync (SyncStep2 u)) st) x). is_awareness m"
    if "x \<noteq> ws" for x
    using that by (intro R_only_aw_new[OF only_aw_rel(1)]) simp
  then show ?thesis
    by (simp add: onMessage_step1[OF assms] send_healthy)
qed

theorem step1_reply_goes_to_sender_only_witness:
  "room (transports two_open 1) = Some 0 \<and>
   heap two_open 0 = Some \<lparr>name = ''r'', conns = [(1, []), (2, [])],
       awareness = \<lparr>clientID = 100, states = [], meta = [(100, 1)]\<rparr>,
       ydoc = [], destroyed = False\<rparr> \<and>
   healthy two_open 1 \<and>
   sent (transports (onMessage gsetEngine 1 (syncFrame (SyncStep1 [7])) two_open) 1)
     = [MsgSync (SyncStep1 []), MsgSync (SyncStep2 [])] \<and>
   new_msgs two_open (onMessage gsetEngine 1 (syncFrame (SyncStep1 [7])) two_open) 2 = []"
proof -
  have h1: "room (transports two_open 1) = Some 0" by code_simp
  have h2: "heap two_open 0 = Some \<lparr>name = ''r'', conns = [(1, []), (2, [])],
       awareness = \<lparr>clientID = 100, states = [], meta = [(100, 1)]\<rparr>,
       ydoc = [], destroyed = False\<rparr>" by code_simp
  have h3: "asSync \<lparr>asSync = Some (SyncStep1 [7]), asAwareness = None\<rparr> = Some (SyncStep1 [7])"
    by simp
  have h4: "encodeStateAsUpdate gsetEngine
              (ydoc \<lparr>name = ''r'', conns = [(1, []), (2, [])],
                 awareness = \<lparr>clientID = 100, states = [], meta = [(100, 1)]\<rparr>,
                 ydoc = [], destroyed = False\<rparr>) [7] = Some []"
    by (simp add: gsetEngine_def)
  have h5: "healthy two_open 1" by code_simp
  have h6: "sent (transports two_open 1) = [MsgSync (SyncStep1 [])]" by code_simp
  note t = step1_reply_goes_to_sender_only[OF h1 h2 h3 h4, THEN conjunct2, THEN conjunct1,
      rule_format, OF h5]
  have a: "sent (transports (onMessage gsetEngine 1 (syncFrame (SyncStep1 [7])) two_open) 1)
     = [MsgSync (SyncStep1 []), MsgSync (SyncStep2 [])]"
    using t[THEN conjunct1] h6 by (simp add: syncFrame_def)
  have "transports (onMessage gsetEngine 1 (syncFrame (SyncStep1 [7])) two_open) 2
          = transports two_open 2"
    using t[THEN conjunct2, rule_format, of 2] by (simp add: syncFrame_def)
  then have b: "new_msgs two_open (onMessage gsetEngine 1 (syncFrame (SyncStep1 [7])) two_open) 2
           = []"
    by (simp add: new_msgs_def)
  show ?thesis using h1 h2 h5 a b by simp
qed

subsection \<open>C9: the stats request\<close>

text \<open>
  C9 as stated fails: the reply goes through \<^verbatim>\<open>send\<close>, and \<^verbatim>\<open>send\<close> closes a
  connection whose transport is not open. A registered connection whose transport is
  closing asks for the stats: no reply is written, the connection is deregistered and
  its room, now empty, leaves the registry.
\<close>

theorem stats_from_closing_transport_deregisters:
  "registered one_closing 0 1 \<and> docs one_closing ''r'' = Some 0 \<and>
   \<not> registered (onMessage gsetEngine 1 statsFrame one_closing) 0 1 \<and>
   docs (onMessage gsetEngine 1 statsFrame one_closing) ''r'' = None \<and>
   sent (transports (onMessage gsetEngine 1 statsFrame one_closing) 1)
     = sent (transports one_closing 1)"
  by code_simp

text \<open>
  C9 amended: a STATS frame from a connection whose transport takes the payload appends
  one reply to the outbox of the requester, holding the number of connections
  registered in the room of the requester, and changes nothing else: documents,
  presence tables, registries, the room registry and every other transport are as
  before. From a connection whose transport does not take the payload, the frame does
  what \<^verbatim>\<open>closeConn\<close> does.
\<close>

theorem stats_reply_when_open:
  assumes "room (transports st ws) = Some d"
  shows "(healthy st ws \<longrightarrow>
            onMessage E ws (Frame messageStats p) st
              = transmit ws (MsgStats (length (conns_of st d))) st \<and>
            heap (onMessage E ws (Frame messageStats p) st) = heap st \<and>
            docs (onMessage E ws (Frame messageStats p) st) = docs st \<and>
            sent (transports (onMessage E ws (Frame messageStats p) st) ws)
              = sent (transports st ws) @ [MsgStats (length (conns_of st d))] \<and>
            (\<forall>x. x \<noteq> ws \<longrightarrow>
               transports (onMessage E ws (Frame messageStats p) st) x = transports st x)) \<and>
         (\<not> healthy st ws \<longrightarrow>
            onMessage E ws (Frame messageStats p) st = closeConn d ws st)"
  using assms by (simp add: onMessage_stats send_healthy send_unhealthy)

theorem stats_reply_when_open_witness:
  "room (transports two_open 1) = Some 0 \<and> healthy two_open 1 \<and>
   onMessage gsetEngine 1 statsFrame two_open = transmit 1 (MsgStats 2) two_open \<and>
   sent (transports (onMessage gsetEngine 1 statsFrame two_open) 1)
     = [MsgSync (SyncStep1 []), MsgStats 2]"
proof -
  have h1: "room (transports two_open 1) = Some 0" by code_simp
  have h2: "healthy two_open 1" by code_simp
  have h3: "length (conns_of two_open 0) = 2" by code_simp
  have h4: "sent (transports two_open 1) = [MsgSync (SyncStep1 [])]" by code_simp
  show ?thesis
    using stats_reply_when_open[OF h1, of gsetEngine noPayload] h1 h2 h3 h4
    by (simp add: statsFrame_def)
qed

subsection \<open>C10: closing twice\<close>

text \<open>
  C10: \<^verbatim>\<open>closeConn\<close> for a connection that is not registered in the room only calls
  \<^verbatim>\<open>close()\<close> on the transport again: documents, presence tables, connection maps
  and the room registry are unchanged and nothing is sent. After \<^verbatim>\<open>closeConn\<close> has
  run for a connection, and after a send to a transport that did not take the payload,
  the connection is not registered; so the \<^verbatim>\<open>close\<close> event that follows finds nothing
  to remove and nothing to destroy.
\<close>

theorem closeConn_again_only_closes:
  "(\<not> registered st d c \<longrightarrow>
      closeConn d c st = upd_transport c close_transport st \<and>
      heap (closeConn d c st) = heap st \<and>
      docs (closeConn d c st) = docs st \<and>
      (\<forall>x. sent (transports (closeConn d c st) x) = sent (transports st x)) \<and>
      closeCalls (transports (closeConn d c st) c) = Suc (closeCalls (transports st c))) \<and>
   \<not> registered (closeConn d c st) d c \<and>
   (\<not> healthy st c \<longrightarrow> \<not> registered (send d c m st) d c)"
  by (simp add: closeConn_unregistered not_registered_after_closeConn send_unhealthy
      close_transport_def)

theorem closeConn_again_only_closes_witness:
  "\<not> registered after_write_failure 0 1 \<and> \<not> healthy after_write_failure 1 \<and>
   closeConn 0 1 after_write_failure = upd_transport 1 close_transport after_write_failure \<and>
   \<not> registered (send 0 1 (MsgStats 0) after_write_failure) 0 1"
proof -
  have h1: "\<not> registered after_write_failure 0 1" by code_simp
  have h2: "\<not> healthy after_write_failure 1" by code_simp
  show ?thesis
    using closeConn_again_only_closes[of after_write_failure 0 1 "MsgStats 0"] h1 h2 by simp
qed

end
